theory Spec2Isabelle
  imports Complex_Main "HOL-Library.Multiset"
begin

section \<open>Python values shared by the scripts\<close>

text \<open>
  The exceptions the modelled code paths can raise.  A function that can raise returns
  \<open>py_error + 'a\<close>, with \<open>Inl\<close> for the exception.
\<close>

datatype py_error = IndexError | ValueError | KeyError | OverflowError | ZeroDivisionError

definition bind_err :: "py_error + 'a \<Rightarrow> ('a \<Rightarrow> py_error + 'b) \<Rightarrow> py_error + 'b" where
  "bind_err m f = (case m of Inl e \<Rightarrow> Inl e | Inr x \<Rightarrow> f x)"

subsection \<open>Strings: \<open>str.split()\<close>, \<open>" ".join\<close>, \<open>int(str)\<close>, \<open>str(int)\<close>, \<open>str.endswith\<close>\<close>

text \<open>
  A character is a code point below 256.  \<open>is_space\<close> is \<open>str.isspace\<close> on that range:
  tab, line feed, vertical tab, form feed, carriage return, the four separators
  0x1C..0x1F, space, 0x85 and 0xA0.
\<close>

definition is_space :: "char \<Rightarrow> bool" where
  "is_space c = (c \<in> set [CHR 0x09, CHR 0x0A, CHR 0x0B, CHR 0x0C, CHR 0x0D,
                           CHR 0x1C, CHR 0x1D, CHR 0x1E, CHR 0x1F, CHR 0x20,
                           CHR 0x85, CHR 0xA0])"

text \<open>
  \<open>line.split()\<close> with no argument: the maximal runs of non-whitespace characters, in
  order; no empty token.  \<open>split_from cur s\<close> scans \<open>s\<close> with the token \<open>cur\<close> being read.
\<close>

fun split_from :: "string \<Rightarrow> string \<Rightarrow> string list" where
  "split_from cur [] = (if cur = [] then [] else [cur])"
| "split_from cur (c # cs) =
     (if is_space c then (if cur = [] then split_from [] cs else cur # split_from [] cs)
      else split_from (cur @ [c]) cs)"

definition split :: "string \<Rightarrow> string list" where
  "split s = split_from [] s"

fun join_space :: "string list \<Rightarrow> string" where
  "join_space [] = []"
| "join_space [p] = p"
| "join_space (p # q # ps) = p @ '' '' @ join_space (q # ps)"

definition digit_val :: "char \<Rightarrow> nat option" where
  "digit_val = map_of [(CHR ''0'', 0), (CHR ''1'', 1), (CHR ''2'', 2), (CHR ''3'', 3),
                       (CHR ''4'', 4), (CHR ''5'', 5), (CHR ''6'', 6), (CHR ''7'', 7),
                       (CHR ''8'', 8), (CHR ''9'', 9)]"

text \<open>
  \<open>int(s)\<close> in base 10 on a token without whitespace: an optional sign, then decimal
  digits, where a single underscore may stand between two digits.  \<open>None\<close> is the
  \<open>ValueError\<close>.  (The interpreter's optional limit on the number of digits of one
  conversion is not modelled.)
\<close>

fun parse_digits :: "nat \<Rightarrow> string \<Rightarrow> nat option" where
  "parse_digits acc [] = Some acc"
| "parse_digits acc (c # cs) =
     (if c = CHR ''_'' then
        (case cs of [] \<Rightarrow> None
         | d # ds \<Rightarrow> (case digit_val d of None \<Rightarrow> None
                      | Some v \<Rightarrow> parse_digits (10 * acc + v) ds))
      else (case digit_val c of None \<Rightarrow> None
            | Some v \<Rightarrow> parse_digits (10 * acc + v) cs))"

definition parse_nat :: "string \<Rightarrow> nat option" where
  "parse_nat s = (case s of [] \<Rightarrow> None
                  | c # cs \<Rightarrow> (case digit_val c of None \<Rightarrow> None
                               | Some v \<Rightarrow> parse_digits v cs))"

definition py_int :: "string \<Rightarrow> int option" where
  "py_int s = (case s of [] \<Rightarrow> None
               | c # cs \<Rightarrow>
                   if c = CHR ''-'' then map_option (\<lambda>n. - int n) (parse_nat cs)
                   else if c = CHR ''+'' then map_option int (parse_nat cs)
                   else map_option int (parse_nat s))"

definition digit_char :: "nat \<Rightarrow> char" where
  "digit_char d = ''0123456789'' ! d"

fun str_nat :: "nat \<Rightarrow> string" where
  "str_nat n = (if n < 10 then [digit_char n] else str_nat (n div 10) @ [digit_char (n mod 10)])"

declare str_nat.simps [simp del]

definition py_str :: "int \<Rightarrow> string" where
  "py_str i = (if i < 0 then CHR ''-'' # str_nat (nat (- i)) else str_nat (nat i))"

definition endswith :: "string \<Rightarrow> string \<Rightarrow> bool" where
  "endswith s suf = (length suf \<le> length s \<and> drop (length s - length suf) s = suf)"

section \<open>Python floats\<close>

text \<open>
  A Python \<open>float\<close> is an IEEE 754 binary64 value: a rational of the form \<open>m * 2 ^ e\<close>
  with \<open>\<bar>m\<bar> < 2 ^ 53\<close>, or an infinity, or a NaN.  The sign of zero is not kept: no
  operation modelled here tells \<open>0.0\<close> from \<open>-0.0\<close>.
\<close>

datatype pyfloat = Finite rat | PosInf | NegInf | NaN

text \<open>The number of binary digits of a positive integer (\<open>int.bit_length\<close>).\<close>

function bit_length :: "int \<Rightarrow> nat" where
  "bit_length n = (if n \<le> 0 then 0 else Suc (bit_length (n div 2)))"
  by pat_completeness auto
termination
  by (relation "measure nat") auto

declare bit_length.simps [simp del]

definition pow2 :: "int \<Rightarrow> rat" where
  "pow2 e = (if 0 \<le> e then 2 ^ nat e else 1 / 2 ^ nat (- e))"

text \<open>For \<open>x > 0\<close>, the integer \<open>k\<close> with \<open>2 ^ k \<le> x < 2 ^ (k + 1)\<close>.\<close>

definition floor_log2 :: "rat \<Rightarrow> int" where
  "floor_log2 x = (if 1 \<le> x then int (bit_length \<lfloor>x\<rfloor>) - 1
                   else - int (bit_length (\<lceil>1 / x\<rceil> - 1)))"

definition round_half_even :: "rat \<Rightarrow> int" where
  "round_half_even x =
     (let f = \<lfloor>x\<rfloor>; d = x - of_int f
      in if d < 1 / 2 then f else if 1 / 2 < d then f + 1 else if even f then f else f + 1)"

text \<open>
  Rounding an exact result to binary64, to nearest with ties to even: 53 significant
  bits, the exponent of the last bit not below \<open>-1074\<close> (subnormal numbers), and a
  result of magnitude \<open>2 ^ 1024\<close> or more is an infinity.
\<close>

definition round_to_double :: "rat \<Rightarrow> pyfloat" where
  "round_to_double x =
     (if x = 0 then Finite 0
      else
        let a = \<bar>x\<bar>;
            e = max (floor_log2 a - 52) (- 1074);
            m = round_half_even (a / pow2 e);
            v = of_int m * pow2 e
        in if pow2 1024 \<le> v then (if 0 < x then PosInf else NegInf)
           else Finite (if 0 < x then v else - v))"

text \<open>
  \<open>a / b\<close> on two \<open>int\<close>s: the exact quotient, correctly rounded; \<open>float(n)\<close>, the
  conversion Python applies to the \<open>int\<close> operand of a mixed operation.  Both raise
  \<open>OverflowError\<close> where the result is too large for a float.
\<close>

definition int_truediv :: "int \<Rightarrow> int \<Rightarrow> py_error + pyfloat" where
  "int_truediv a b =
     (if b = 0 then Inl ZeroDivisionError
      else case round_to_double (of_int a / of_int b) of
             Finite v \<Rightarrow> Inr (Finite v)
           | _ \<Rightarrow> Inl OverflowError)"

definition float_of_int :: "int \<Rightarrow> py_error + pyfloat" where
  "float_of_int n =
     (case round_to_double (of_int n) of
        Finite v \<Rightarrow> Inr (Finite v)
      | _ \<Rightarrow> Inl OverflowError)"

fun fsign :: "pyfloat \<Rightarrow> int" where
  "fsign (Finite a) = (if 0 < a then 1 else if a < 0 then - 1 else 0)"
| "fsign PosInf = 1"
| "fsign NegInf = - 1"
| "fsign NaN = 0"

definition inf_of_sign :: "int \<Rightarrow> pyfloat" where
  "inf_of_sign s = (if 0 < s then PosInf else if s < 0 then NegInf else NaN)"

text \<open>The float operations \<open>x * y\<close>, \<open>x + y\<close>, \<open>-x\<close>, \<open>x - y\<close>, \<open>abs(x)\<close>, \<open>x > y\<close>.\<close>

fun fmul :: "pyfloat \<Rightarrow> pyfloat \<Rightarrow> pyfloat" where
  "fmul NaN y = NaN"
| "fmul x NaN = NaN"
| "fmul (Finite a) (Finite b) = round_to_double (a * b)"
| "fmul x y = inf_of_sign (fsign x * fsign y)"






text \<open>\<open>x / y\<close> on floats; a zero divisor raises.\<close>

fun float_truediv :: "pyfloat \<Rightarrow> pyfloat \<Rightarrow> py_error + pyfloat" where
  "float_truediv x (Finite b) =
     (if b = 0 then Inl ZeroDivisionError
      else case x of
             Finite a \<Rightarrow> Inr (round_to_double (a / b))
           | NaN \<Rightarrow> Inr NaN
           | _ \<Rightarrow> Inr (inf_of_sign (fsign x * fsign (Finite b))))"
| "float_truediv x NaN = Inr NaN"
| "float_truediv (Finite a) y = Inr (Finite 0)"
| "float_truediv x y = Inr NaN"

text \<open>
  \<open>int(x)\<close> on a float truncates towards zero; an infinity is an \<open>OverflowError\<close>, a
  NaN a \<open>ValueError\<close>.
\<close>

fun int_of_float :: "pyfloat \<Rightarrow> py_error + int" where
  "int_of_float (Finite a) = Inr (if 0 \<le> a then \<lfloor>a\<rfloor> else \<lceil>a\<rceil>)"
| "int_of_float PosInf = Inl OverflowError"
| "int_of_float NegInf = Inl OverflowError"
| "int_of_float NaN = Inl ValueError"

text \<open>Mixed operations: the \<open>int\<close> operand is converted first.\<close>

definition int_times_float :: "int \<Rightarrow> pyfloat \<Rightarrow> py_error + pyfloat" where
  "int_times_float n x = bind_err (float_of_int n) (\<lambda>f. Inr (fmul f x))"

definition float_times_int :: "pyfloat \<Rightarrow> int \<Rightarrow> py_error + pyfloat" where
  "float_times_int x n = bind_err (float_of_int n) (\<lambda>f. Inr (fmul x f))"

definition float_div_int :: "pyfloat \<Rightarrow> int \<Rightarrow> py_error + pyfloat" where
  "float_div_int x n = bind_err (float_of_int n) (\<lambda>f. float_truediv x f)"

text \<open>
  Sequences: \<open>xs[i]\<close> and \<open>xs[lo:hi]\<close> with Python's treatment of negative and
  out-of-range positions.
\<close>

definition py_index :: "'a list \<Rightarrow> int \<Rightarrow> py_error + 'a" where
  "py_index xs i =
     (if 0 \<le> i \<and> i < int (length xs) then Inr (xs ! nat i)
      else if - int (length xs) \<le> i \<and> i < 0 then Inr (xs ! nat (i + int (length xs)))
      else Inl IndexError)"

definition slice_bound :: "nat \<Rightarrow> int \<Rightarrow> nat" where
  "slice_bound n i = (if i < 0 then nat (max 0 (i + int n)) else min n (nat i))"

definition py_slice :: "'a list \<Rightarrow> int option \<Rightarrow> int option \<Rightarrow> 'a list" where
  "py_slice xs lo hi =
     (let n = length xs;
          l = (case lo of None \<Rightarrow> 0 | Some i \<Rightarrow> slice_bound n i);
          h = (case hi of None \<Rightarrow> n | Some i \<Rightarrow> slice_bound n i)
      in take (h - l) (drop l xs))"


section \<open>AZYoloClassRemover2: removing a class from a dataset\<close>

text \<open>
  \<open>data.yaml\<close> as loaded by \<open>yaml.safe_load\<close>: the two keys the script reads and writes,
  either of which may be absent, and the remaining keys, which it passes through.
\<close>

record yaml_data =
  names :: "string list option"
  nc :: "int option"
  other_keys :: "(string \<times> string) list"

text \<open>
  A label file is its name and the lines \<open>readlines()\<close> returns; a labels directory is
  its entries in the order \<open>os.listdir\<close> gives them.  A split whose labels directory
  does not exist is \<open>None\<close>.
\<close>

type_synonym label_file = "string \<times> string list"
type_synonym label_dir = "label_file list"

datatype split_name = Train | Val | Test

record dataset =
  yaml :: yaml_data
  train_labels :: "label_dir option"
  val_labels :: "label_dir option"
  test_labels :: "label_dir option"

text \<open>
  \<open>os.path.join(dataset_path, split, 'labels')\<close>: reading the directory of a split
  (\<open>None\<close> when \<open>os.path.exists\<close> is false) and writing its files back.
\<close>

fun labels :: "split_name \<Rightarrow> dataset \<Rightarrow> label_dir option" where
  "labels Train ds = train_labels ds"
| "labels Val ds = val_labels ds"
| "labels Test ds = test_labels ds"

fun write_labels :: "split_name \<Rightarrow> label_dir \<Rightarrow> dataset \<Rightarrow> dataset" where
  "write_labels Train d ds = ds\<lparr>train_labels := Some d\<rparr>"
| "write_labels Val d ds = ds\<lparr>val_labels := Some d\<rparr>"
| "write_labels Test d ds = ds\<lparr>test_labels := Some d\<rparr>"

text \<open>\<open>classes.index(class_name)\<close>, the position of the first occurrence.\<close>

fun index_of :: "'a list \<Rightarrow> 'a \<Rightarrow> nat" where
  "index_of [] x = 0"
| "index_of (y # ys) x = (if y = x then 0 else Suc (index_of ys x))"

definition get_class_index :: "string list \<Rightarrow> string \<Rightarrow> int" where
  "get_class_index classes class_name =
     (if class_name \<in> set classes then int (index_of classes class_name) else - 1)"

text \<open>\<open>classes.pop(i)\<close> for an index in range, as the caller has it.\<close>

definition pop :: "'a list \<Rightarrow> nat \<Rightarrow> 'a list" where
  "pop xs i = take i xs @ drop (Suc i) xs"

text \<open>
  The dictionary \<open>{i: (i if i < old_class_index else i - 1) for i in range(n)}\<close>, where the
  caller passes \<open>n = len(classes) + 1\<close> after the pop.
\<close>

definition class_map :: "int \<Rightarrow> nat \<Rightarrow> (int \<rightharpoonup> int)" where
  "class_map old_class_index n =
     map_of (map (\<lambda>i. (i, if i < old_class_index then i else i - 1)) (map int [0..<n]))"

text \<open>
  The body of \<open>update_labels\<close> for the lines of one file.  The source appends to
  \<open>new_lines\<close> while it walks \<open>lines\<close>; the recursion returns the same list.  The first
  line that raises ends the walk: \<open>parts[0]\<close> on a line without a token is the
  \<open>IndexError\<close>, \<open>int\<close> the \<open>ValueError\<close>, the dictionary lookup the \<open>KeyError\<close>.
\<close>

fun rewrite_lines :: "int \<Rightarrow> (int \<rightharpoonup> int) \<Rightarrow> string list \<Rightarrow> py_error + string list" where
  "rewrite_lines old_class_index cm [] = Inr []"
| "rewrite_lines old_class_index cm (line # rest) =
     (case split line of
        [] \<Rightarrow> Inl IndexError
      | p # ps \<Rightarrow>
          (case py_int p of
             None \<Rightarrow> Inl ValueError
           | Some class_idx \<Rightarrow>
               if class_idx \<noteq> old_class_index then
                 (case cm class_idx of
                    None \<Rightarrow> Inl KeyError
                  | Some j \<Rightarrow>
                      bind_err (rewrite_lines old_class_index cm rest)
                        (\<lambda>new_lines. Inr ((join_space (py_str j # ps) @ [CHR 0x0A]) # new_lines)))
               else rewrite_lines old_class_index cm rest))"

text \<open>
  \<open>update_labels\<close> over one labels directory: every entry whose name ends in \<open>.txt\<close> is
  read, rewritten and written back; the others are left alone.  An exception leaves
  the loop, so the result is then the exception.
\<close>

fun update_labels :: "int \<Rightarrow> (int \<rightharpoonup> int) \<Rightarrow> label_dir \<Rightarrow> py_error + label_dir" where
  "update_labels old_class_index cm [] = Inr []"
| "update_labels old_class_index cm ((label_file, lines) # rest) =
     (if endswith label_file ''.txt'' then
        bind_err (rewrite_lines old_class_index cm lines) (\<lambda>new_lines.
        bind_err (update_labels old_class_index cm rest) (\<lambda>rest'.
        Inr ((label_file, new_lines) # rest')))
      else
        bind_err (update_labels old_class_index cm rest) (\<lambda>rest'.
        Inr ((label_file, lines) # rest')))"

text \<open>
  The loop \<open>for split in ['train', 'val', 'test']\<close> of \<open>process_dataset\<close>: a labels
  directory that exists is updated, one that does not is skipped.
\<close>

fun update_splits ::
  "int \<Rightarrow> (int \<rightharpoonup> int) \<Rightarrow> split_name list \<Rightarrow> dataset \<Rightarrow> py_error + dataset" where
  "update_splits old_class_index cm [] ds = Inr ds"
| "update_splits old_class_index cm (s # ss) ds =
     (case labels s ds of
        None \<Rightarrow> update_splits old_class_index cm ss ds
      | Some d \<Rightarrow>
          bind_err (update_labels old_class_index cm d) (\<lambda>d'.
          update_splits old_class_index cm ss (write_labels s d' ds)))"

datatype message = ShowError string | ShowInfo string

text \<open>
  \<open>process_dataset\<close>, with the path entry, the listbox selection and the dataset on disk
  as arguments.  It returns the message box shown and the dataset as left on disk, or
  the exception that \<open>update_labels\<close> raised.  \<open>data.yaml\<close> is saved before the label
  files are touched.
\<close>

definition process_dataset :: "string \<Rightarrow> string \<Rightarrow> dataset \<Rightarrow> py_error + (message \<times> dataset)" where
  "process_dataset yaml_path selected_class ds =
     (if yaml_path = [] then Inr (ShowError ''Please select a data.yaml file.'', ds)
      else if selected_class = [] then Inr (ShowError ''Please select a class to remove.'', ds)
      else
        let data = yaml ds;
            classes = (case names data of None \<Rightarrow> [] | Some ns \<Rightarrow> ns);
            old_class_index = get_class_index classes selected_class
        in if old_class_index = - 1 then
             Inr (ShowError (''Class '' @ [CHR 0x27] @ selected_class @ [CHR 0x27]
                             @ '' not found in the dataset.''), ds)
           else
             let classes' = pop classes (nat old_class_index);
                 data' = data\<lparr>names := Some classes', nc := Some (int (length classes'))\<rparr>;
                 cm = class_map old_class_index (length classes' + 1)
             in bind_err (update_splits old_class_index cm [Train, Val, Test] (ds\<lparr>yaml := data'\<rparr>))
                  (\<lambda>ds'. Inr (ShowInfo (''Class '' @ [CHR 0x27] @ selected_class @ [CHR 0x27]
                                         @ '' removed successfully from the dataset.''), ds')))"

subsection \<open>The rewrite as the specification words it\<close>

text \<open>
  The specification's description of the rewrite, to be compared with \<open>rewrite_lines\<close>:
  the leading class index of a line, the new index of a kept line, and the file with
  the lines of the removed class dropped and the others relabelled in order.
\<close>

definition leading_index :: "string \<Rightarrow> int option" where
  "leading_index line = (case split line of [] \<Rightarrow> None | p # ps \<Rightarrow> py_int p)"

definition new_index :: "int \<Rightarrow> int \<Rightarrow> int" where
  "new_index r i = (if i < r then i else i - 1)"

definition relabel :: "int \<Rightarrow> string \<Rightarrow> string" where
  "relabel r line =
     join_space (py_str (new_index r (the (leading_index line))) # tl (split line)) @ [CHR 0x0A]"

definition rewritten :: "int \<Rightarrow> string list \<Rightarrow> string list" where
  "rewritten r lines = map (relabel r) (filter (\<lambda>l. leading_index l \<noteq> Some r) lines)"

definition rewritten_dir :: "int \<Rightarrow> label_dir \<Rightarrow> label_dir" where
  "rewritten_dir r d =
     map (\<lambda>(f, lines). (f, if endswith f ''.txt'' then rewritten r lines else lines)) d"

text \<open>A token: a non-empty string without whitespace.\<close>

definition token :: "string \<Rightarrow> bool" where
  "token t = (t \<noteq> [] \<and> (\<forall>c\<in>set t. \<not> is_space c))"

text \<open>
  A well-formed line for a dataset of \<open>n\<close> classes: it has a first token, which parses
  as an integer in \<open>[0, n - 1]\<close>.
\<close>

definition wellformed_line :: "nat \<Rightarrow> string \<Rightarrow> bool" where
  "wellformed_line n line =
     (case leading_index line of None \<Rightarrow> False | Some i \<Rightarrow> 0 \<le> i \<and> i < int n)"

text \<open>
  A line the rewrite accepts: its first token parses, and the index is the removed one
  (the line is dropped before the lookup) or a key of the dictionary.
\<close>

definition line_ok :: "int \<Rightarrow> nat \<Rightarrow> string \<Rightarrow> bool" where
  "line_ok r n line =
     (case leading_index line of None \<Rightarrow> False | Some i \<Rightarrow> i = r \<or> (0 \<le> i \<and> i < int n))"

definition dir_ok :: "int \<Rightarrow> nat \<Rightarrow> label_dir \<Rightarrow> bool" where
  "dir_ok r n d = (\<forall>(f, lines)\<in>set d. endswith f ''.txt'' \<longrightarrow> (\<forall>l\<in>set lines. line_ok r n l))"


text \<open>
  The precondition on a whole dataset of \<open>n\<close> classes: every line of every \<open>.txt\<close> file of
  every existing labels directory is well formed.
\<close>

definition wellformed_dataset :: "nat \<Rightarrow> dataset \<Rightarrow> bool" where
  "wellformed_dataset n ds =
     list_all (\<lambda>s. case labels s ds of
                      None \<Rightarrow> True
                    | Some d \<Rightarrow> list_all (\<lambda>(f, lines). endswith f ''.txt'' \<longrightarrow>
                                                        list_all (wellformed_line n) lines) d)
       [Train, Val, Test]"

text \<open>
  A dataset of three classes to run the functions on: one label file and one other file
  in \<open>train/labels\<close>, no \<open>val/labels\<close>, an empty \<open>test/labels\<close>; and two variants, one with
  a blank line and one with a class index that is out of range.
\<close>

definition example_dataset :: "string list \<Rightarrow> dataset" where
  "example_dataset lines =
     \<lparr>yaml = \<lparr>names = Some [''cat'', ''dog'', ''bird''], nc = Some 3, other_keys = []\<rparr>,
      train_labels = Some [(''a.txt'', lines), (''notes.md'', [''hello''])],
      val_labels = None,
      test_labels = Some []\<rparr>"

definition good_lines :: "string list" where
  "good_lines = [''0 0.5 0.5 0.1 0.1'' @ [CHR 0x0A], ''1 0.2 0.2 0.1 0.1'' @ [CHR 0x0A],
                 ''2   0.3 0.3 0.1 0.1'']"

definition blank_lines :: "string list" where
  "blank_lines = [''0 0.5 0.5 0.1 0.1'' @ [CHR 0x0A], [CHR 0x0A]]"

definition range_lines :: "string list" where
  "range_lines = [''3 0.5 0.5 0.1 0.1'' @ [CHR 0x0A]]"


text \<open>The dataset that removing \<open>dog\<close> from the first example leaves.\<close>

definition removed_dog :: dataset where
  "removed_dog =
     \<lparr>yaml = \<lparr>names = Some [''cat'', ''bird''], nc = Some 2, other_keys = []\<rparr>,
      train_labels = Some [(''a.txt'', [''0 0.5 0.5 0.1 0.1'' @ [CHR 0x0A], ''1 0.3 0.3 0.1 0.1'' @ [CHR 0x0A]]),
                          (''notes.md'', [''hello''])],
      val_labels = None,
      test_labels = Some []\<rparr>"

section \<open>AZ\_ClassExport2: episodes of a detected class in a video\<close>

text \<open>
  What \<open>process_video\<close> reads from the outside: the frame count of the capture,
  \<open>cap.set\<close> followed by \<open>cap.read\<close> (\<open>None\<close> when \<open>ret\<close> is false), whether the model
  reports boxes that include the selected class on a frame, and the value of
  \<open>self.stopped\<close> at each evaluation of the loop condition, which another thread sets.
\<close>

record 'f video =
  total_frames :: int
  read_frame :: "int \<Rightarrow> 'f option"
  detects :: "'f \<Rightarrow> bool"
  stopped_at :: "nat \<Rightarrow> bool"

type_synonym 'f indexed_frame = "int \<times> 'f"
type_synonym 'f episode = "'f indexed_frame \<times> 'f indexed_frame"

record 'f scan_state =
  detected_frame_indices :: "'f indexed_frame list"
  class_episodes :: "'f episode list"
  current_episode :: "'f indexed_frame list"

definition initial_scan_state :: "'f scan_state" where
  "initial_scan_state = \<lparr>detected_frame_indices = [], class_episodes = [], current_episode = []\<rparr>"

text \<open>The body of the \<open>while\<close> loop once a frame has been read, up to \<open>frame_index += step\<close>.\<close>

definition loop_body :: "int \<Rightarrow> 'f \<Rightarrow> bool \<Rightarrow> 'f scan_state \<Rightarrow> 'f scan_state" where
  "loop_body frame_index frame detected st =
     (if detected then
        let st1 = st\<lparr>detected_frame_indices := detected_frame_indices st @ [(frame_index, frame)]\<rparr>
        in if current_episode st1 = [] then
             st1\<lparr>current_episode := [(frame_index, frame)]\<rparr>
           else if frame_index - fst (last (current_episode st1)) \<le> 60 then
             st1\<lparr>current_episode := current_episode st1 @ [(frame_index, frame)]\<rparr>
           else
             (if length (current_episode st1) \<ge> 2 then
                st1\<lparr>class_episodes := class_episodes st1
                                         @ [(hd (current_episode st1), last (current_episode st1))]\<rparr>
              else st1)
             \<lparr>current_episode := [(frame_index, frame)]\<rparr>
      else st)"

text \<open>
  The \<open>while frame_index < total_frames and not self.stopped\<close> loop.  It need not end
  (a step of 0 never advances), so it is a partial function: \<open>None\<close> is a loop that runs
  forever.  The result is the final \<open>frame_index\<close> and the lists.
\<close>

partial_function (option) scan_loop ::
  "'f video \<Rightarrow> int \<Rightarrow> nat \<Rightarrow> int \<Rightarrow> 'f scan_state \<Rightarrow> (int \<times> 'f scan_state) option" where
  "scan_loop v step k frame_index st =
     (if frame_index < total_frames v \<and> \<not> stopped_at v k then
        (case read_frame v frame_index of
           None \<Rightarrow> Some (frame_index, st)
         | Some frame \<Rightarrow>
             scan_loop v step (Suc k) (frame_index + step)
               (loop_body frame_index frame (detects v frame) st))
      else Some (frame_index, st))"

declare scan_loop.simps [code]

text \<open>The statement after the loop that records the episode still open.\<close>

definition close_episodes :: "'f scan_state \<Rightarrow> 'f episode list" where
  "close_episodes st =
     (if current_episode st \<noteq> [] \<and> length (current_episode st) \<ge> 2 then
        class_episodes st @ [(hd (current_episode st), last (current_episode st))]
      else class_episodes st)"

definition all_detected :: "'f episode list \<Rightarrow> 'f indexed_frame list" where
  "all_detected eps = map fst eps @ map snd eps"

subsection \<open>Selecting the frames to export\<close>

text \<open>A list comprehension whose element expression may raise.\<close>

fun map_err :: "('a \<Rightarrow> py_error + 'b) \<Rightarrow> 'a list \<Rightarrow> py_error + 'b list" where
  "map_err f [] = Inr []"
| "map_err f (x # xs) = bind_err (f x) (\<lambda>y. bind_err (map_err f xs) (\<lambda>ys. Inr (y # ys)))"

text \<open>
  \<open>int(i * interval)\<close> with \<open>interval = len(all_detected) / max_to_save\<close>: the quotient is
  rounded to a float, \<open>i\<close> is converted, the product is rounded, and \<open>int\<close> truncates.
\<close>

definition spaced_index :: "pyfloat \<Rightarrow> int \<Rightarrow> py_error + int" where
  "spaced_index interval i = bind_err (int_times_float i interval) int_of_float"

text \<open>The position in \<open>all_detected\<close> that slot \<open>i\<close> of the selection reads.\<close>

definition frame_position :: "int \<Rightarrow> int \<Rightarrow> int \<Rightarrow> py_error + int" where
  "frame_position L M i = bind_err (int_truediv L M) (\<lambda>interval. spaced_index interval i)"

text \<open>
  The selection at the end of \<open>process_video\<close>; \<open>range(max_to_save)\<close> is \<open>[0..max_to_save - 1]\<close>,
  empty for a limit below 1.
\<close>

definition select_frames :: "'a list \<Rightarrow> int \<Rightarrow> py_error + 'a list" where
  "select_frames all_frames max_to_save =
     (if int (length all_frames) > max_to_save then
        bind_err (int_truediv (int (length all_frames)) max_to_save) (\<lambda>interval.
        bind_err (map_err (spaced_index interval) [0..max_to_save - 1]) (\<lambda>indices.
        map_err (py_index all_frames) indices))
      else Inr all_frames)"

text \<open>
  The selection as the specification words it: the elements at the positions
  \<open>\<lfloor>i * L / M\<rfloor>\<close> for \<open>i = 0 .. M - 1\<close>, in exact arithmetic.
\<close>

definition evenly_spaced :: "'a list \<Rightarrow> int \<Rightarrow> 'a list" where
  "evenly_spaced all_frames max_to_save =
     map (\<lambda>i. all_frames ! nat ((i * int (length all_frames)) div max_to_save)) [0..max_to_save - 1]"


subsection \<open>Episodes as the specification words them\<close>

text \<open>
  The maximal runs of a list of detected frames in which consecutive frame indices
  differ by at most 60: a new run starts exactly where two neighbours are further
  apart.  The difference of two indices is their distance \<open>\<bar>j - i\<bar>\<close>.
\<close>

fun runs :: "'f indexed_frame list \<Rightarrow> 'f indexed_frame list list" where
  "runs [] = []"
| "runs [x] = [[x]]"
| "runs (x # y # zs) =
     (if \<bar>fst y - fst x\<bar> \<le> 60 then (x # hd (runs (y # zs))) # tl (runs (y # zs))
      else [x] # runs (y # zs))"

definition recorded :: "'f indexed_frame list \<Rightarrow> 'f episode list" where
  "recorded ds = map (\<lambda>r. (hd r, last r)) (filter (\<lambda>r. length r \<ge> 2) (runs ds))"

text \<open>
  The distances between consecutive frame indices inside a run, and the distances
  between the last index of a run and the first index of the next run.
\<close>

definition gaps :: "'f indexed_frame list \<Rightarrow> int list" where
  "gaps r = map (\<lambda>(a, b). \<bar>fst b - fst a\<bar>) (zip r (tl r))"

definition boundary_gaps :: "'f indexed_frame list list \<Rightarrow> int list" where
  "boundary_gaps rs = map (\<lambda>(r, s). \<bar>fst (hd s) - fst (last r)\<bar>) (zip rs (tl rs))"

text \<open>
  The invariant of the loop when the step is positive: the open episode is the last run
  of the frames detected so far, and the recorded episodes are the ends of the earlier
  runs of two frames or more.
\<close>

definition scan_inv :: "'f scan_state \<Rightarrow> bool" where
  "scan_inv st =
     (if detected_frame_indices st = [] then current_episode st = [] \<and> class_episodes st = []
      else current_episode st = last (runs (detected_frame_indices st))
         \<and> class_episodes st = map (\<lambda>r. (hd r, last r))
              (filter (\<lambda>r. length r \<ge> 2) (butlast (runs (detected_frame_indices st)))))"

text \<open>A video of 400 frames in which the class shows on frames 0, 30, 60, 200 and 300.\<close>

definition example_video :: "int video" where
  "example_video = \<lparr>total_frames = 400, read_frame = (\<lambda>i. Some i),
                     detects = (\<lambda>f. f \<in> set [0, 30, 60, 200, 300]), stopped_at = (\<lambda>k. False)\<rparr>"

text \<open>
  A video of 200 frames, read backwards from frame 100 by a step of \<open>-10\<close>, in which the
  class shows on frames 100, 90, 10 and 0; a position below 0 cannot be read.
\<close>

definition backward_video :: "int video" where
  "backward_video = \<lparr>total_frames = 200, read_frame = (\<lambda>i. if 0 \<le> i then Some i else None),
                      detects = (\<lambda>f. f \<in> set [100, 90, 10, 0]), stopped_at = (\<lambda>k. False)\<rparr>"


section \<open>AZYoloDatasetRearrange: a new train/val/test split\<close>

text \<open>
  \<open>int(s)\<close> on the text of an entry skips the whitespace around the number.  The
  characters it skips are not those of \<open>str.isspace\<close>: of the code points below 256 they
  are tab, line feed, vertical tab, form feed, carriage return, space, 0x85 and 0xA0,
  and not the separators 0x1C..0x1F.
\<close>

definition is_int_space :: "char \<Rightarrow> bool" where
  "is_int_space c = (c \<in> set [CHR 0x09, CHR 0x0A, CHR 0x0B, CHR 0x0C, CHR 0x0D, CHR 0x20,
                               CHR 0x85, CHR 0xA0])"

definition int_strip :: "string \<Rightarrow> string" where
  "int_strip s = rev (dropWhile is_int_space (rev (dropWhile is_int_space s)))"

text \<open>
  An image is known by the split folder it lies in and its file name
  (\<open>os.path.join(dataset_path, split, 'images', img_file)\<close>).  The listing of a split is the
  result of \<open>os.listdir\<close> on its images folder, \<open>None\<close> where the folder does not exist.
\<close>

type_synonym image_path = "split_name \<times> string"

definition list_images :: "(split_name \<Rightarrow> string list option) \<Rightarrow> split_name \<Rightarrow> image_path list" where
  "list_images images sp =
     (case images sp of
        None \<Rightarrow> []
      | Some fs \<Rightarrow> map (Pair sp) (filter (\<lambda>f. endswith f ''.jpg'' \<or> endswith f ''.png'') fs))"

text \<open>\<open>image_files['train'] + image_files['val'] + image_files['test']\<close>.\<close>

definition collected_images :: "(split_name \<Rightarrow> string list option) \<Rightarrow> image_path list" where
  "collected_images images =
     list_images images Train @ list_images images Val @ list_images images Test"

record plan =
  test_images :: "image_path list"
  train_images :: "image_path list"
  valid_images :: "image_path list"

text \<open>
  \<open>int(test_percent / 100 * len(all_images))\<close>,
  \<open>(self.split_scale.get() / 100) * remaining_percent\<close> and
  \<open>int(train_percent / 100 * len(remaining_images))\<close>.  The scale has integer steps, so
  its value is an \<open>int\<close>.
\<close>

definition test_count :: "int \<Rightarrow> nat \<Rightarrow> py_error + int" where
  "test_count test_percent n =
     bind_err (int_truediv test_percent 100) (\<lambda>f.
     bind_err (float_times_int f (int n)) int_of_float)"

definition train_percent_of :: "int \<Rightarrow> int \<Rightarrow> py_error + pyfloat" where
  "train_percent_of scale remaining_percent =
     bind_err (int_truediv scale 100) (\<lambda>f. float_times_int f remaining_percent)"

definition train_count :: "pyfloat \<Rightarrow> nat \<Rightarrow> py_error + int" where
  "train_count train_percent n =
     bind_err (float_div_int train_percent 100) (\<lambda>f.
     bind_err (float_times_int f (int n)) int_of_float)"

text \<open>
  \<open>rearrange_dataset\<close> up to the three calls of \<open>move_files\<close>: the result is the message
  box and the three lists handed to \<open>move_files\<close>.  \<open>random.shuffle\<close> is the argument
  \<open>shuffle\<close>.  The text of the message for an entry that is not an integer, and the
  counts in the success message, are not modelled.
\<close>

definition rearrange_dataset ::
  "string \<Rightarrow> string \<Rightarrow> int \<Rightarrow> (split_name \<Rightarrow> string list option)
     \<Rightarrow> (image_path list \<Rightarrow> image_path list) \<Rightarrow> py_error + (message \<times> plan option)" where
  "rearrange_dataset dataset_path test_percent_entry split_scale images shuffle =
     (if dataset_path = [] then Inr (ShowError ''Please select a dataset folder.'', None)
      else case py_int (int_strip test_percent_entry) of
        None \<Rightarrow> Inr (ShowError ''invalid literal for int()'', None)
      | Some test_percent \<Rightarrow>
          if \<not> (0 \<le> test_percent \<and> test_percent \<le> 100) then
            Inr (ShowError ''Test set percentage must be between 0 and 100.'', None)
          else
            let remaining_percent = 100 - test_percent in
            bind_err (train_percent_of split_scale remaining_percent) (\<lambda>train_percent.
            let all_images = shuffle (collected_images images) in
            bind_err (test_count test_percent (length all_images)) (\<lambda>tc.
            let test = py_slice all_images None (Some tc);
                remaining_images = py_slice all_images (Some tc) None in
            bind_err (train_count train_percent (length remaining_images)) (\<lambda>trc.
            let train = py_slice remaining_images None (Some trc);
                valid = py_slice remaining_images (Some trc) None in
            Inr (ShowInfo ''Dataset rearranged!'',
                 Some \<lparr>test_images = test, train_images = train, valid_images = valid\<rparr>)))))"


section \<open>AZ\_Yolov8ClassificationFolderSpliter: splitting class folders\<close>

text \<open>
  The effects of \<open>split_dataset\<close> on the file system, in the order they happen:
  \<open>os.makedirs(os.path.join(output_dir, split, cls), exist_ok=True)\<close> and
  \<open>shutil.copy\<close> of file \<open>f\<close> of class \<open>cls\<close> from \<open>input_dir/cls/f\<close> to
  \<open>output_dir/split/cls/f\<close>.  The function has no other effect on files.
\<close>

datatype fs_op = MakeDirs split_name string | Copy string string split_name







text \<open>The files copied to one split of one class, read off the effects.\<close>

definition copied :: "fs_op list \<Rightarrow> split_name \<Rightarrow> string \<Rightarrow> string list" where
  "copied ops sp cls = concat (map (\<lambda>op. case op of
                                         Copy c f s \<Rightarrow> if c = cls \<and> s = sp then [f] else []
                                       | MakeDirs s c \<Rightarrow> []) ops)"

text \<open>
  What the effects do to the two folders, for an output folder that does not lie inside
  the input folder: the input tree maps class and file name to a content, the output
  tree has directories and files.
\<close>

record 'c folders =
  input_files :: "string \<times> string \<Rightarrow> 'c option"
  output_dirs :: "(split_name \<times> string) set"
  output_files :: "split_name \<times> string \<times> string \<Rightarrow> 'c option"

fun apply_op :: "'c folders \<Rightarrow> fs_op \<Rightarrow> 'c folders" where
  "apply_op t (MakeDirs sp cls) = t\<lparr>output_dirs := insert (sp, cls) (output_dirs t)\<rparr>"
| "apply_op t (Copy cls f sp) =
     t\<lparr>output_files := (output_files t)((sp, cls, f) := input_files t (cls, f))\<rparr>"

text \<open>A dataset whose \<open>train/images\<close> folder holds \<open>n\<close> images \<open>0.jpg\<close>, \<open>1.jpg\<close>, ...\<close>

definition numbered_images :: "nat \<Rightarrow> string list" where
  "numbered_images n = map (\<lambda>k. py_str (int k) @ ''.jpg'') [0..<n]"

definition example_images :: "nat \<Rightarrow> split_name \<Rightarrow> string list option" where
  "example_images n s = (if s = Train then Some (numbered_images n) else None)"



text \<open>The sizes of the three lists of a finished run.\<close>

definition plan_sizes :: "plan \<Rightarrow> nat \<times> nat \<times> nat" where
  "plan_sizes pl = (length (test_images pl), length (train_images pl), length (valid_images pl))"


section \<open>Properties of the string functions\<close>

lemma digit_cases: "d < 10 \<Longrightarrow> d \<in> {0, 1, 2, 3, 4, 5, 6, 7, 8, 9::nat}"
  by auto

lemma digit_val_digit_char: "d < 10 \<Longrightarrow> digit_val (digit_char d) = Some d"
  using digit_cases [of d] by (auto simp: digit_val_def digit_char_def)

lemma digit_char_not_space: "d < 10 \<Longrightarrow> \<not> is_space (digit_char d)"
  using digit_cases [of d] by (auto simp: is_space_def digit_char_def)

lemma digit_char_not_sign:
  "d < 10 \<Longrightarrow> digit_char d \<noteq> CHR ''-'' \<and> digit_char d \<noteq> CHR ''+'' \<and> digit_char d \<noteq> CHR ''_''"
  using digit_cases [of d] by (auto simp: digit_char_def)

lemma parse_digits_snoc:
  "parse_digits acc cs = Some v \<Longrightarrow> d < 10 \<Longrightarrow>
     parse_digits acc (cs @ [digit_char d]) = Some (10 * v + d)"
proof (induction acc cs rule: parse_digits.induct)
  case (1 acc)
  then show ?case by (simp add: digit_val_digit_char digit_char_not_sign)
next
  case (2 acc c cs)
  show ?case
  proof (cases "c = CHR ''_''")
    case True
    with "2.prems"(1) obtain e es w where cs: "cs = e # es" and e: "digit_val e = Some w"
      and r: "parse_digits (10 * acc + w) es = Some v"
      by (cases cs; cases "digit_val (hd cs)") auto
    from "2.IH"(1) [OF True cs e r "2.prems"(2)] show ?thesis
      using True cs e by simp
  next
    case False
    with "2.prems"(1) obtain w where c: "digit_val c = Some w"
      and r: "parse_digits (10 * acc + w) cs = Some v"
      by (cases "digit_val c") auto
    from "2.IH"(2) [OF False c r "2.prems"(2)] show ?thesis
      using False c by simp
  qed
qed

lemma parse_nat_snoc:
  "parse_nat s = Some v \<Longrightarrow> d < 10 \<Longrightarrow> parse_nat (s @ [digit_char d]) = Some (10 * v + d)"
  by (cases s) (auto simp: parse_nat_def parse_digits_snoc split: option.splits)

lemma parse_nat_str_nat: "parse_nat (str_nat n) = Some n"
proof (induction n rule: str_nat.induct)
  case (1 n)
  show ?case
  proof (cases "n < 10")
    case True
    then show ?thesis by (subst str_nat.simps) (simp add: parse_nat_def digit_val_digit_char)
  next
    case False
    with 1 have "parse_nat (str_nat (n div 10)) = Some (n div 10)" by simp
    then have "parse_nat (str_nat (n div 10) @ [digit_char (n mod 10)]) = Some (10 * (n div 10) + n mod 10)"
      by (rule parse_nat_snoc) simp
    with False show ?thesis by (subst str_nat.simps) simp
  qed
qed

lemma str_nat_chars: "c \<in> set (str_nat n) \<Longrightarrow> \<exists>d<10. c = digit_char d"
proof (induction n rule: str_nat.induct)
  case (1 n)
  show ?case
  proof (cases "n < 10")
    case True
    with 1(2) show ?thesis by (subst (asm) str_nat.simps) auto
  next
    case False
    with 1(2) have "c \<in> set (str_nat (n div 10)) \<or> c = digit_char (n mod 10)"
      by (subst (asm) str_nat.simps) auto
    with 1(1) False show ?thesis
      by (metis mod_less_divisor zero_less_numeral)
  qed
qed

lemma str_nat_nonempty: "str_nat n \<noteq> []"
  by (subst str_nat.simps) simp

lemma py_int_py_str: "py_int (py_str i) = Some i"
proof (cases "i < 0")
  case True
  then show ?thesis by (simp add: py_int_def py_str_def parse_nat_str_nat)
next
  case False
  obtain c cs where s: "str_nat (nat i) = c # cs"
    using str_nat_nonempty [of "nat i"] by (cases "str_nat (nat i)") auto
  then have "c \<in> set (str_nat (nat i))" by simp
  then obtain d where "d < 10" "c = digit_char d" using str_nat_chars by blast
  then have "c \<noteq> CHR ''-''" "c \<noteq> CHR ''+''" using digit_char_not_sign by auto
  moreover have "parse_nat (c # cs) = Some (nat i)" using parse_nat_str_nat [of "nat i"] s by simp
  ultimately show ?thesis using False by (simp add: py_int_def py_str_def s)
qed


lemma py_str_token: "token (py_str i)"
proof -
  have "\<forall>c\<in>set (str_nat n). \<not> is_space c" for n
    using str_nat_chars digit_char_not_space by blast
  moreover have "\<not> is_space CHR ''-''" by (simp add: is_space_def)
  ultimately show ?thesis by (simp add: token_def py_str_def str_nat_nonempty)
qed

lemma split_from_tokens:
  "\<forall>c\<in>set cur. \<not> is_space c \<Longrightarrow> t \<in> set (split_from cur s) \<Longrightarrow> token t"
proof (induction s arbitrary: cur)
  case Nil
  then show ?case by (cases "cur = []") (simp_all add: token_def)
next
  case (Cons c cs)
  show ?case
  proof (cases "is_space c")
    case True
    show ?thesis
    proof (cases "cur = []")
      case True
      with \<open>is_space c\<close> Cons.prems(2) have "t \<in> set (split_from [] cs)" by simp
      then show ?thesis by (rule Cons.IH [rotated]) simp
    next
      case False
      with \<open>is_space c\<close> Cons.prems(2) have "t = cur \<or> t \<in> set (split_from [] cs)" by simp
      then show ?thesis
      proof
        assume "t = cur"
        with False Cons.prems(1) show ?thesis by (simp add: token_def)
      next
        assume "t \<in> set (split_from [] cs)"
        then show ?thesis by (rule Cons.IH [rotated]) simp
      qed
    qed
  next
    case False
    with Cons.prems(2) have "t \<in> set (split_from (cur @ [c]) cs)" by simp
    then show ?thesis
      by (rule Cons.IH [rotated]) (use False Cons.prems(1) in simp)
  qed
qed

lemma split_tokens: "t \<in> set (split s) \<Longrightarrow> token t"
  unfolding split_def by (rule split_from_tokens [of "[]"]) auto

lemma split_from_append:
  "\<forall>c\<in>set t. \<not> is_space c \<Longrightarrow> split_from cur (t @ s) = split_from (cur @ t) s"
  by (induction t arbitrary: cur) auto

lemma newline_space: "is_space (CHR 0x0A)" and blank_space: "is_space CHR '' ''"
  by (simp_all add: is_space_def)

lemma split_join_space:
  "\<forall>p\<in>set ps. token p \<Longrightarrow> split (join_space ps @ [CHR 0x0A]) = ps"
proof (induction ps rule: join_space.induct)
  case 1
  show ?case by (simp add: split_def newline_space)
next
  case (2 p)
  then show ?case by (simp add: split_def split_from_append token_def newline_space)
next
  case (3 p q ps)
  then have "split (join_space (q # ps) @ [CHR 0x0A]) = q # ps" by simp
  with 3(2) show ?case
    by (simp add: split_def split_from_append token_def blank_space)
qed




section \<open>Properties of the class remover\<close>

lemma class_map_lookup:
  "class_map r n i = (if 0 \<le> i \<and> i < int n then Some (if i < r then i else i - 1) else None)"
proof -
  have "class_map r n = (Some \<circ> (\<lambda>i. if i < r then i else i - 1)) |` set (map int [0..<n])"
    unfolding class_map_def by (rule map_of_map_restrict)
  moreover have "i \<in> set (map int [0..<n]) \<longleftrightarrow> 0 \<le> i \<and> i < int n"
  proof
    assume "i \<in> set (map int [0..<n])"
    then show "0 \<le> i \<and> i < int n" by auto
  next
    assume "0 \<le> i \<and> i < int n"
    then have "nat i < n" and "i = int (nat i)" by auto
    then show "i \<in> set (map int [0..<n])"
      by (metis atLeastLessThan_iff image_eqI list.set_map set_upt zero_le)
  qed
  ultimately show ?thesis by (simp add: restrict_map_def)
qed

lemma index_of_less: "x \<in> set xs \<Longrightarrow> index_of xs x < length xs"
  by (induction xs) auto

lemma index_of_nth: "x \<in> set xs \<Longrightarrow> xs ! index_of xs x = x"
  by (induction xs) auto

lemma pop_index_of: "x \<in> set xs \<Longrightarrow> pop xs (index_of xs x) = remove1 x xs"
  by (induction xs) (auto simp: pop_def)

lemma length_pop: "i < length xs \<Longrightarrow> length (pop xs i) = length xs - 1"
  by (auto simp: pop_def)

lemma pop_nth:
  "i < length xs \<Longrightarrow> k < length xs - 1 \<Longrightarrow> pop xs i ! k = (if k < i then xs ! k else xs ! Suc k)"
  by (auto simp: pop_def nth_append min_def)

lemma rewrite_lines_ok:
  "\<forall>l\<in>set lines. line_ok r n l \<Longrightarrow> rewrite_lines r (class_map r n) lines = Inr (rewritten r lines)"
proof (induction lines)
  case Nil
  show ?case by (simp add: rewritten_def)
next
  case (Cons l ls)
  then have ih: "rewrite_lines r (class_map r n) ls = Inr (rewritten r ls)" by simp
  from Cons.prems have ok: "line_ok r n l" by simp
  then obtain p ps i where sp: "split l = p # ps" and pi: "py_int p = Some i"
    and rg: "i = r \<or> (0 \<le> i \<and> i < int n)"
    by (auto simp: line_ok_def leading_index_def split: list.splits option.splits)
  have li: "leading_index l = Some i" by (simp add: leading_index_def sp pi)
  show ?case
  proof (cases "i = r")
    case True
    then show ?thesis by (simp add: sp pi ih rewritten_def li)
  next
    case False
    with rg have "class_map r n i = Some (new_index r i)"
      by (simp add: class_map_lookup new_index_def)
    with False show ?thesis
      by (simp add: sp pi ih rewritten_def li bind_err_def relabel_def)
  qed
qed

lemma rewrite_lines_Inr_ok:
  "rewrite_lines r (class_map r n) lines = Inr out \<Longrightarrow> \<forall>l\<in>set lines. line_ok r n l"
proof (induction lines arbitrary: out)
  case Nil
  show ?case by simp
next
  case (Cons l ls)
  from Cons.prems obtain p ps i where sp: "split l = p # ps" and pi: "py_int p = Some i"
    by (auto split: list.splits option.splits)
  have li: "leading_index l = Some i" by (simp add: leading_index_def sp pi)
  show ?case
  proof (cases "i = r")
    case True
    with Cons.prems have "rewrite_lines r (class_map r n) ls = Inr out" by (simp add: sp pi)
    with Cons.IH have "\<forall>l\<in>set ls. line_ok r n l" by blast
    with True li show ?thesis by (simp add: line_ok_def)
  next
    case False
    with Cons.prems obtain j where cm: "class_map r n i = Some j"
      by (auto simp: sp pi split: option.splits)
    with False Cons.prems obtain out' where "rewrite_lines r (class_map r n) ls = Inr out'"
      by (auto simp: sp pi bind_err_def split: sum.splits)
    with Cons.IH have "\<forall>l\<in>set ls. line_ok r n l" by blast
    moreover from cm have "0 \<le> i \<and> i < int n" by (simp add: class_map_lookup split: if_splits)
    ultimately show ?thesis using li by (simp add: line_ok_def)
  qed
qed

lemma update_labels_ok:
  "dir_ok r n d \<Longrightarrow> update_labels r (class_map r n) d = Inr (rewritten_dir r d)"
proof (induction d)
  case Nil
  show ?case by (simp add: rewritten_dir_def)
next
  case (Cons e es)
  obtain f lines where e: "e = (f, lines)" by (cases e)
  from Cons.prems have es: "dir_ok r n es" by (simp add: dir_ok_def)
  have ih: "update_labels r (class_map r n) es = Inr (rewritten_dir r es)"
    by (rule Cons.IH [OF es])
  show ?case
  proof (cases "endswith f ''.txt''")
    case True
    with Cons.prems e have "\<forall>l\<in>set lines. line_ok r n l" by (simp add: dir_ok_def)
    then have "rewrite_lines r (class_map r n) lines = Inr (rewritten r lines)"
      by (rule rewrite_lines_ok)
    with True ih show ?thesis by (simp add: e bind_err_def rewritten_dir_def)
  next
    case False
    with ih show ?thesis by (simp add: e bind_err_def rewritten_dir_def)
  qed
qed

lemma update_labels_Inr_ok:
  "update_labels r (class_map r n) d = Inr d' \<Longrightarrow> dir_ok r n d"
proof (induction d arbitrary: d')
  case Nil
  show ?case by (simp add: dir_ok_def)
next
  case (Cons e es)
  obtain f lines where e: "e = (f, lines)" by (cases e)
  show ?case
  proof (cases "endswith f ''.txt''")
    case True
    with Cons.prems e obtain out es' where
      a: "rewrite_lines r (class_map r n) lines = Inr out" and
      b: "update_labels r (class_map r n) es = Inr es'"
      by (auto simp: bind_err_def split: sum.splits)
    from a have "\<forall>l\<in>set lines. line_ok r n l" by (rule rewrite_lines_Inr_ok)
    moreover from b have "dir_ok r n es" by (rule Cons.IH)
    ultimately show ?thesis by (simp add: e dir_ok_def)
  next
    case False
    with Cons.prems e obtain es' where b: "update_labels r (class_map r n) es = Inr es'"
      by (auto simp: bind_err_def split: sum.splits)
    from b have "dir_ok r n es" by (rule Cons.IH)
    with False show ?thesis by (simp add: e dir_ok_def)
  qed
qed

lemma update_labels_Inr:
  "update_labels r (class_map r n) d = Inr d' \<Longrightarrow> d' = rewritten_dir r d"
  using update_labels_Inr_ok [of r n d d'] update_labels_ok [of r n d] by simp

lemma labels_write_labels:
  "labels s (write_labels s' d ds) = (if s = s' then Some d else labels s ds)"
  by (cases s; cases s') simp_all

lemma yaml_write_labels: "yaml (write_labels s d ds) = yaml ds"
  by (cases s) simp_all

lemma update_splits_Inr:
  "update_splits r (class_map r n) ss ds = Inr ds' \<Longrightarrow> distinct ss \<Longrightarrow>
     yaml ds' = yaml ds \<and>
     (\<forall>s. labels s ds' = (if s \<in> set ss then map_option (rewritten_dir r) (labels s ds) else labels s ds)) \<and>
     (\<forall>s\<in>set ss. \<forall>d. labels s ds = Some d \<longrightarrow> dir_ok r n d)"
proof (induction ss arbitrary: ds)
  case Nil
  then show ?case by simp
next
  case (Cons a ss)
  show ?case
  proof (cases "labels a ds")
    case None
    with Cons.prems have "update_splits r (class_map r n) ss ds = Inr ds'" by simp
    from Cons.IH [OF this] Cons.prems(2) None show ?thesis by auto
  next
    case (Some d)
    with Cons.prems obtain d1 where
      u: "update_labels r (class_map r n) d = Inr d1" and
      rest: "update_splits r (class_map r n) ss (write_labels a d1 ds) = Inr ds'"
      by (auto simp: bind_err_def split: sum.splits)
    from u have d1: "d1 = rewritten_dir r d" by (rule update_labels_Inr)
    from u have ok: "dir_ok r n d" by (rule update_labels_Inr_ok)
    from Cons.prems(2) have an: "a \<notin> set ss" and dis: "distinct ss" by auto
    from Cons.IH [OF rest dis] have
      y: "yaml ds' = yaml (write_labels a d1 ds)" and
      l: "\<And>s. labels s ds' = (if s \<in> set ss then map_option (rewritten_dir r) (labels s (write_labels a d1 ds))
                               else labels s (write_labels a d1 ds))" and
      k: "\<And>s d. s \<in> set ss \<Longrightarrow> labels s (write_labels a d1 ds) = Some d \<Longrightarrow> dir_ok r n d"
      by blast+
    have "yaml ds' = yaml ds" using y by (simp add: yaml_write_labels)
    moreover have "labels s ds' = (if s \<in> set (a # ss) then map_option (rewritten_dir r) (labels s ds) else labels s ds)" for s
      using l [of s] an Some d1 by (auto simp: labels_write_labels)
    moreover have "dir_ok r n d'" if "s \<in> set (a # ss)" "labels s ds = Some d'" for s d'
    proof (cases "s = a")
      case True
      with that Some ok show ?thesis by simp
    next
      case False
      with that have "s \<in> set ss" by simp
      moreover from False that have "labels s (write_labels a d1 ds) = Some d'"
        by (simp add: labels_write_labels)
      ultimately show ?thesis by (rule k)
    qed
    ultimately show ?thesis by blast
  qed
qed

lemma update_splits_ok:
  "distinct ss \<Longrightarrow> \<forall>s\<in>set ss. \<forall>d. labels s ds = Some d \<longrightarrow> dir_ok r n d \<Longrightarrow>
     \<exists>ds'. update_splits r (class_map r n) ss ds = Inr ds'"
proof (induction ss arbitrary: ds)
  case Nil
  show ?case by simp
next
  case (Cons a ss)
  from Cons.prems(1) have an: "a \<notin> set ss" and dis: "distinct ss" by auto
  show ?case
  proof (cases "labels a ds")
    case None
    from Cons.prems(2) have "\<forall>s\<in>set ss. \<forall>d. labels s ds = Some d \<longrightarrow> dir_ok r n d" by simp
    from Cons.IH [OF dis this] None show ?thesis by simp
  next
    case (Some d)
    with Cons.prems(2) have "dir_ok r n d" by simp
    then have u: "update_labels r (class_map r n) d = Inr (rewritten_dir r d)"
      by (rule update_labels_ok)
    have "\<forall>s\<in>set ss. \<forall>d'. labels s (write_labels a (rewritten_dir r d) ds) = Some d' \<longrightarrow> dir_ok r n d'"
      using Cons.prems(2) an by (auto simp: labels_write_labels)
    from Cons.IH [OF dis this] Some u show ?thesis by (simp add: bind_err_def)
  qed
qed

lemma get_class_index_found:
  "get_class_index classes c \<noteq> - 1 \<Longrightarrow> c \<in> set classes \<and> get_class_index classes c = int (index_of classes c)"
  by (auto simp: get_class_index_def split: if_splits)

lemma process_dataset_success:
  assumes "process_dataset yaml_path selected_class ds = Inr (ShowInfo m, ds')"
  shows "\<exists>classes. names (yaml ds) = Some classes \<and> selected_class \<in> set classes \<and>
           update_splits (int (index_of classes selected_class))
             (class_map (int (index_of classes selected_class)) (length classes)) [Train, Val, Test]
             (ds\<lparr>yaml := (yaml ds)\<lparr>names := Some (remove1 selected_class classes),
                                    nc := Some (int (length (remove1 selected_class classes)))\<rparr>\<rparr>) = Inr ds'"
proof -
  define classes where "classes = (case names (yaml ds) of None \<Rightarrow> [] | Some ns \<Rightarrow> ns)"
  from assms have nz: "yaml_path \<noteq> []" "selected_class \<noteq> []"
    by (auto simp: process_dataset_def split: if_splits)
  from assms nz have found: "get_class_index classes selected_class \<noteq> - 1"
    by (auto simp: process_dataset_def Let_def classes_def split: if_splits)
  then have mem: "selected_class \<in> set classes"
    and idx: "get_class_index classes selected_class = int (index_of classes selected_class)"
    using get_class_index_found by blast+
  from mem have ne: "classes \<noteq> []" by auto
  then have nm: "names (yaml ds) = Some classes"
    by (auto simp: classes_def split: option.splits)
  have p: "pop classes (index_of classes selected_class) = remove1 selected_class classes"
    using mem by (rule pop_index_of)
  have len: "Suc (length (remove1 selected_class classes)) = length classes"
    using mem ne by (simp add: length_remove1 Suc_pred)
  define U where "U = update_splits (int (index_of classes selected_class))
             (class_map (int (index_of classes selected_class)) (length classes)) [Train, Val, Test]
             (ds\<lparr>yaml := (yaml ds)\<lparr>names := Some (remove1 selected_class classes),
                                    nc := Some (int (length (remove1 selected_class classes)))\<rparr>\<rparr>)"
  from assms nz found
  have "\<exists>msg. bind_err U (\<lambda>ds'. Inr (ShowInfo msg, ds')) = Inr (ShowInfo m, ds')"
    unfolding U_def process_dataset_def Let_def
    by (simp add: idx nm p len del: update_splits.simps) blast
  then have "U = Inr ds'"
    by (cases U) (auto simp: bind_err_def)
  with nm mem show ?thesis unfolding U_def by blast
qed

lemma relabel_tokens:
  assumes "leading_index l = Some i"
  shows "split (relabel r l) = py_str (new_index r i) # tl (split l)"
    and "leading_index (relabel r l) = Some (new_index r i)"
proof -
  from assms obtain p ps where sp: "split l = p # ps"
    by (auto simp: leading_index_def split: list.splits)
  have "\<forall>t\<in>set (py_str (new_index r i) # ps). token t"
    using split_tokens [of _ l] py_str_token by (auto simp: sp)
  then have "split (join_space (py_str (new_index r i) # ps) @ [CHR 0x0A]) = py_str (new_index r i) # ps"
    by (rule split_join_space)
  then show a: "split (relabel r l) = py_str (new_index r i) # tl (split l)"
    by (simp add: relabel_def assms sp)
  show "leading_index (relabel r l) = Some (new_index r i)"
    by (simp add: leading_index_def a py_int_py_str)
qed

text \<open>
  C1.  When the removal succeeds, every existing labels directory (\<open>train\<close>, \<open>val\<close>,
  \<open>test\<close>) holds, for each \<open>.txt\<close> file, exactly the original lines whose leading token,
  parsed as an integer, differs from the removed index \<open>r\<close>, in their original order and
  relabelled; other entries are untouched.  The tokens of a relabelled line are the new
  index followed by the old tokens after the first, and the new index is \<open>i\<close> for
  \<open>i < r\<close> and \<open>i - 1\<close> for \<open>i > r\<close>.
\<close>

theorem class_removal_rewrites_labels:
  assumes "process_dataset yaml_path selected_class ds = Inr (ShowInfo m, ds')"
    and "names (yaml ds) = Some classes"
  shows "labels s ds' = map_option (rewritten_dir (int (index_of classes selected_class))) (labels s ds)
       \<and> (\<forall>r l i. leading_index l = Some i \<longrightarrow>
             split (relabel r l) = py_str (new_index r i) # tl (split l)
           \<and> leading_index (relabel r l) = Some (new_index r i)
           \<and> (i < r \<longrightarrow> new_index r i = i) \<and> (i > r \<longrightarrow> new_index r i = i - 1))"
proof -
  from process_dataset_success [OF assms(1)] assms(2)
  have u: "update_splits (int (index_of classes selected_class))
             (class_map (int (index_of classes selected_class)) (length classes)) [Train, Val, Test]
             (ds\<lparr>yaml := (yaml ds)\<lparr>names := Some (remove1 selected_class classes),
                                    nc := Some (int (length (remove1 selected_class classes)))\<rparr>\<rparr>) = Inr ds'"
    by auto
  have "distinct [Train, Val, Test]" by simp
  from update_splits_Inr [OF u this]
  have "labels s ds' = map_option (rewritten_dir (int (index_of classes selected_class)))
           (labels s (ds\<lparr>yaml := (yaml ds)\<lparr>names := Some (remove1 selected_class classes),
                                    nc := Some (int (length (remove1 selected_class classes)))\<rparr>\<rparr>))"
    by (cases s) auto
  moreover have "labels s (ds\<lparr>yaml := y\<rparr>) = labels s ds" for y by (cases s) simp_all
  ultimately have "labels s ds' = map_option (rewritten_dir (int (index_of classes selected_class))) (labels s ds)"
    by simp
  then show ?thesis by (simp add: relabel_tokens new_index_def)
qed

text \<open>
  C2.  The remapping commutes with removing the name: for an old index \<open>i\<close> other than
  the removed one, the dictionary has an entry for \<open>i\<close>, and the name at that position
  of the updated list is the name at position \<open>i\<close> of the original list.
\<close>

theorem class_map_preserves_names:
  assumes "selected_class \<in> set classes" and "i < length classes"
    and "int i \<noteq> get_class_index classes selected_class"
  shows "\<exists>j. class_map (get_class_index classes selected_class)
               (length (pop classes (nat (get_class_index classes selected_class))) + 1) (int i) = Some j
           \<and> 0 \<le> j \<and> nat j < length (pop classes (nat (get_class_index classes selected_class)))
           \<and> pop classes (nat (get_class_index classes selected_class)) ! nat j = classes ! i
           \<and> pop classes (nat (get_class_index classes selected_class)) = remove1 selected_class classes"
proof -
  define r where "r = index_of classes selected_class"
  have g: "get_class_index classes selected_class = int r"
    using assms(1) by (simp add: get_class_index_def r_def)
  have rl: "r < length classes" unfolding r_def using assms(1) by (rule index_of_less)
  from assms(3) g have ne: "i \<noteq> r" by auto
  have lp: "length (pop classes r) = length classes - 1" using rl by (rule length_pop)
  define j where "j = (if int i < int r then int i else int i - 1)"
  have cm: "class_map (int r) (length (pop classes r) + 1) (int i) = Some j"
    using assms(2) rl by (simp add: class_map_lookup j_def lp)
  have j0: "0 \<le> j" using ne by (auto simp: j_def)
  have jl: "nat j < length classes - 1" using ne assms(2) rl by (auto simp: j_def)
  then have jl': "nat j < length (pop classes r)" by (simp add: lp)
  have nth: "pop classes r ! nat j = classes ! i"
    using pop_nth [OF rl jl] ne by (auto simp: j_def nat_diff_distrib Suc_nat_eq_nat_zadd1)
  have rm: "pop classes r = remove1 selected_class classes"
    unfolding r_def using assms(1) by (rule pop_index_of)
  show ?thesis unfolding g nat_int using cm j0 jl' nth rm by blast
qed

text \<open>
  C3.  After a successful removal, \<open>names\<close> in the saved \<open>data.yaml\<close> is the original
  list without the first occurrence of the selected name, \<open>nc\<close> is its length, one less
  than before, and the other keys are as they were.
\<close>

theorem process_dataset_updates_yaml:
  assumes "process_dataset yaml_path selected_class ds = Inr (ShowInfo m, ds')"
  shows "\<exists>classes. names (yaml ds) = Some classes \<and> selected_class \<in> set classes
           \<and> names (yaml ds') = Some (remove1 selected_class classes)
           \<and> nc (yaml ds') = Some (int (length (remove1 selected_class classes)))
           \<and> int (length (remove1 selected_class classes)) = int (length classes) - 1
           \<and> other_keys (yaml ds') = other_keys (yaml ds)"
proof -
  from process_dataset_success [OF assms] obtain classes where
    nm: "names (yaml ds) = Some classes" and mem: "selected_class \<in> set classes" and
    u: "update_splits (int (index_of classes selected_class))
             (class_map (int (index_of classes selected_class)) (length classes)) [Train, Val, Test]
             (ds\<lparr>yaml := (yaml ds)\<lparr>names := Some (remove1 selected_class classes),
                                    nc := Some (int (length (remove1 selected_class classes)))\<rparr>\<rparr>) = Inr ds'"
    by blast
  have "distinct [Train, Val, Test]" by simp
  from update_splits_Inr [OF u this]
  have "yaml ds' = (yaml ds)\<lparr>names := Some (remove1 selected_class classes),
                                    nc := Some (int (length (remove1 selected_class classes)))\<rparr>"
    by simp
  moreover from mem have "int (length (remove1 selected_class classes)) = int (length classes) - 1"
    using length_pos_if_in_set [of selected_class classes]
    by (simp add: length_remove1 of_nat_diff Suc_leI)
  ultimately show ?thesis using nm mem by simp
qed

lemma wellformed_line_ok: "wellformed_line n l \<Longrightarrow> line_ok r n l"
  by (auto simp: wellformed_line_def line_ok_def split: option.splits)

lemma wellformed_dataset_dir_ok:
  assumes "wellformed_dataset n ds" and "labels s ds = Some d"
  shows "dir_ok r n d"
proof -
  have "s \<in> set [Train, Val, Test]" by (cases s) simp_all
  with assms have "list_all (\<lambda>(f, lines). endswith f ''.txt'' \<longrightarrow> list_all (wellformed_line n) lines) d"
    unfolding wellformed_dataset_def list_all_iff by fastforce
  then show ?thesis
    unfolding dir_ok_def list_all_iff using wellformed_line_ok by fastforce
qed

lemma process_dataset_total:
  assumes "yaml_path \<noteq> []" and "selected_class \<noteq> []" and "names (yaml ds) = Some classes"
    and "selected_class \<in> set classes" and "wellformed_dataset (length classes) ds"
  shows "\<exists>m ds'. process_dataset yaml_path selected_class ds = Inr (ShowInfo m, ds')"
proof -
  define r where "r = index_of classes selected_class"
  have g: "get_class_index classes selected_class = int r"
    using assms(4) by (simp add: get_class_index_def r_def)
  have rl: "r < length classes" unfolding r_def using assms(4) by (rule index_of_less)
  have len: "Suc (length (pop classes r)) = length classes" using rl by (simp add: length_pop)
  define ds1 where "ds1 = ds\<lparr>yaml := (yaml ds)\<lparr>names := Some (pop classes r),
                                 nc := Some (int (length (pop classes r)))\<rparr>\<rparr>"
  have lab: "labels s ds1 = labels s ds" for s unfolding ds1_def by (cases s) simp_all
  have "\<forall>s\<in>set [Train, Val, Test]. \<forall>d. labels s ds1 = Some d \<longrightarrow> dir_ok (int r) (length classes) d"
    using wellformed_dataset_dir_ok [OF assms(5)] by (simp add: lab)
  with update_splits_ok [of "[Train, Val, Test]" ds1 "int r" "length classes"]
  obtain ds' where u: "update_splits (int r) (class_map (int r) (length classes)) [Train, Val, Test] ds1 = Inr ds'"
    by auto
  have "\<exists>m. process_dataset yaml_path selected_class ds = Inr (ShowInfo m, ds')"
    unfolding process_dataset_def Let_def
    using assms(1,2) u
    by (simp add: assms(3) g len ds1_def bind_err_def del: update_splits.simps)
  then show ?thesis by blast
qed

text \<open>
  C7.  If every line of every processed label file has a first token that parses as an
  integer in \<open>[0, old class count - 1]\<close>, the removal completes without raising.  A blank
  line raises \<open>IndexError\<close>, and a leading index equal to the old class count raises
  \<open>KeyError\<close>.
\<close>

theorem label_rewrite_total_on_wellformed:
  "(yaml_path \<noteq> [] \<and> selected_class \<noteq> [] \<and> names (yaml ds) = Some classes
      \<and> selected_class \<in> set classes \<and> wellformed_dataset (length classes) ds
      \<longrightarrow> (\<exists>m ds'. process_dataset yaml_path selected_class ds = Inr (ShowInfo m, ds')))
   \<and> \<not> wellformed_dataset 3 (example_dataset blank_lines)
   \<and> process_dataset ''d/data.yaml'' ''dog'' (example_dataset blank_lines) = Inl IndexError
   \<and> \<not> wellformed_dataset 3 (example_dataset range_lines)
   \<and> process_dataset ''d/data.yaml'' ''dog'' (example_dataset range_lines) = Inl KeyError"
proof -
  have a: "\<not> wellformed_dataset 3 (example_dataset blank_lines)" by code_simp
  have b: "process_dataset ''d/data.yaml'' ''dog'' (example_dataset blank_lines) = Inl IndexError"
    by code_simp
  have c: "\<not> wellformed_dataset 3 (example_dataset range_lines)" by code_simp
  have d: "process_dataset ''d/data.yaml'' ''dog'' (example_dataset range_lines) = Inl KeyError"
    by code_simp
  show ?thesis using process_dataset_total a b c d by blast
qed

theorem label_rewrite_total_on_wellformed_witness:
  "wellformed_dataset 3 (example_dataset good_lines)
   \<and> (\<exists>m ds'. process_dataset ''d/data.yaml'' ''dog'' (example_dataset good_lines) = Inr (ShowInfo m, ds'))"
proof -
  have h1: "''d/data.yaml'' \<noteq> []" and h2: "''dog'' \<noteq> []" by simp_all
  have h3: "names (yaml (example_dataset good_lines)) = Some [''cat'', ''dog'', ''bird'']"
    by (simp add: example_dataset_def)
  have h4: "''dog'' \<in> set [''cat'', ''dog'', ''bird'']" by simp
  have h5: "wellformed_dataset (length [''cat'', ''dog'', ''bird'']) (example_dataset good_lines)"
    by code_simp
  have h6: "wellformed_dataset 3 (example_dataset good_lines)" by code_simp
  from label_rewrite_total_on_wellformed
    [of "''d/data.yaml''" "''dog''" "example_dataset good_lines" "[''cat'', ''dog'', ''bird'']"]
    h1 h2 h3 h4 h5 h6
  show ?thesis by blast
qed


lemma example_run:
  "process_dataset ''d/data.yaml'' ''dog'' (example_dataset good_lines)
     = Inr (ShowInfo ''Class 'dog' removed successfully from the dataset.'', removed_dog)"
  by code_simp

theorem class_removal_rewrites_labels_witness:
  "process_dataset ''d/data.yaml'' ''dog'' (example_dataset good_lines)
     = Inr (ShowInfo ''Class 'dog' removed successfully from the dataset.'', removed_dog)
   \<and> labels Train removed_dog = map_option (rewritten_dir 1) (labels Train (example_dataset good_lines))
   \<and> leading_index ''2   0.3 0.3 0.1 0.1'' = Some 2
   \<and> split (relabel 1 ''2   0.3 0.3 0.1 0.1'') = [''1'', ''0.3'', ''0.3'', ''0.1'', ''0.1'']
   \<and> leading_index (relabel 1 ''2   0.3 0.3 0.1 0.1'') = Some 1"
proof -
  have h2: "names (yaml (example_dataset good_lines)) = Some [''cat'', ''dog'', ''bird'']"
    by (simp add: example_dataset_def)
  have i: "int (index_of [''cat'', ''dog'', ''bird''] ''dog'') = 1" by simp
  have l: "leading_index ''2   0.3 0.3 0.1 0.1'' = Some 2" by code_simp
  have t: "py_str (new_index 1 2) # tl (split ''2   0.3 0.3 0.1 0.1'') = [''1'', ''0.3'', ''0.3'', ''0.1'', ''0.1'']"
    by code_simp
  have n: "new_index 1 2 = 1" by (simp add: new_index_def)
  from class_removal_rewrites_labels [OF example_run h2, of Train] i l t n
  show ?thesis using example_run by auto
qed

theorem class_map_preserves_names_witness:
  "class_map (get_class_index [''cat'', ''dog'', ''bird''] ''dog'')
     (length (pop [''cat'', ''dog'', ''bird''] (nat (get_class_index [''cat'', ''dog'', ''bird''] ''dog''))) + 1) 2 = Some 1
   \<and> pop [''cat'', ''dog'', ''bird''] (nat (get_class_index [''cat'', ''dog'', ''bird''] ''dog'')) ! 1 = ''bird''
   \<and> [''cat'', ''dog'', ''bird''] ! 2 = ''bird''"
proof -
  have h1: "''dog'' \<in> set [''cat'', ''dog'', ''bird'']" by simp
  have h2: "2 < length [''cat'', ''dog'', ''bird'']" by simp
  have h3: "int 2 \<noteq> get_class_index [''cat'', ''dog'', ''bird''] ''dog''" by (simp add: get_class_index_def)
  have e: "class_map (get_class_index [''cat'', ''dog'', ''bird''] ''dog'')
     (length (pop [''cat'', ''dog'', ''bird''] (nat (get_class_index [''cat'', ''dog'', ''bird''] ''dog''))) + 1) 2 = Some 1"
    by code_simp
  from class_map_preserves_names [OF h1 h2 h3] e show ?thesis by auto
qed

theorem process_dataset_updates_yaml_witness:
  "process_dataset ''d/data.yaml'' ''dog'' (example_dataset good_lines)
     = Inr (ShowInfo ''Class 'dog' removed successfully from the dataset.'', removed_dog)
   \<and> names (yaml removed_dog) = Some (remove1 ''dog'' [''cat'', ''dog'', ''bird''])
   \<and> nc (yaml removed_dog) = Some 2"
proof -
  have h2: "names (yaml (example_dataset good_lines)) = Some [''cat'', ''dog'', ''bird'']"
    by (simp add: example_dataset_def)
  from process_dataset_updates_yaml [OF example_run] h2
  show ?thesis using example_run by auto
qed

section \<open>Properties of the episode extractor\<close>

lemma runs_Nil_iff: "runs xs = [] \<longleftrightarrow> xs = []"
  by (induction xs rule: runs.induct) auto

lemma hd_runs: "xs \<noteq> [] \<Longrightarrow> hd (runs xs) \<noteq> [] \<and> hd (hd (runs xs)) = hd xs"
  by (induction xs rule: runs.induct) auto

lemma concat_runs: "concat (runs xs) = xs"
proof (induction xs rule: runs.induct)
  case (3 x y zs)
  define R where "R = runs (y # zs)"
  have ne: "R \<noteq> []" by (simp add: R_def runs_Nil_iff)
  have ih: "concat R = y # zs"
    using "3.IH" by (cases "\<bar>fst y - fst x\<bar> \<le> 60") (simp_all add: R_def)
  obtain r rs where R: "R = r # rs" using ne by (cases R) auto
  show ?case using ih R by (simp add: R_def [symmetric])
qed simp_all

lemma runs_nonempty: "r \<in> set (runs xs) \<Longrightarrow> r \<noteq> []"
proof (induction xs arbitrary: r rule: runs.induct)
  case (3 x y zs)
  define R where "R = runs (y # zs)"
  have ne: "R \<noteq> []" by (simp add: R_def runs_Nil_iff)
  obtain q qs where R: "R = q # qs" using ne by (cases R) auto
  have ih: "\<And>r. r \<in> set R \<Longrightarrow> r \<noteq> []"
    using "3.IH" by (cases "\<bar>fst y - fst x\<bar> \<le> 60") (simp_all add: R_def)
  from "3.prems" R have "r = x # q \<or> r = [x] \<or> r \<in> set R"
    by (cases "\<bar>fst y - fst x\<bar> \<le> 60") (auto simp: R_def [symmetric])
  then show ?case using ih by auto
qed simp_all

lemma gaps_Cons: "r \<noteq> [] \<Longrightarrow> gaps (x # r) = \<bar>fst (hd r) - fst x\<bar> # gaps r"
  by (cases r) (simp_all add: gaps_def)

lemma runs_gaps: "r \<in> set (runs xs) \<Longrightarrow> g \<in> set (gaps r) \<Longrightarrow> g \<le> 60"
proof (induction xs arbitrary: r rule: runs.induct)
  case 1
  then show ?case by simp
next
  case (2 x)
  then show ?case by (simp add: gaps_def)
next
  case (3 x y zs)
  define R where "R = runs (y # zs)"
  have ne: "R \<noteq> []" by (simp add: R_def runs_Nil_iff)
  have h: "hd R \<noteq> []" "hd (hd R) = y" using hd_runs [of "y # zs"] by (simp_all add: R_def)
  obtain q qs where R: "R = q # qs" using ne by (cases R) auto
  have ih: "\<And>r. r \<in> set R \<Longrightarrow> g \<in> set (gaps r) \<Longrightarrow> g \<le> 60"
    using "3.IH" by (cases "\<bar>fst y - fst x\<bar> \<le> 60") (simp_all add: R_def)
  show ?case
  proof (cases "\<bar>fst y - fst x\<bar> \<le> 60")
    case True
    with "3.prems"(1) R have "r = x # q \<or> r \<in> set qs" by (simp add: R_def [symmetric])
    then show ?thesis
    proof
      assume r: "r = x # q"
      with "3.prems"(2) h R have "g = \<bar>fst y - fst x\<bar> \<or> g \<in> set (gaps q)"
        by (simp add: gaps_Cons)
      then show ?thesis using True ih [of q] R by auto
    next
      assume "r \<in> set qs"
      then have "r \<in> set R" using R by simp
      then show ?thesis using ih "3.prems"(2) by blast
    qed
  next
    case False
    with "3.prems"(1) have "r = [x] \<or> r \<in> set R" by (simp add: R_def)
    then show ?thesis
    proof
      assume "r = [x]"
      with "3.prems"(2) show ?thesis by (simp add: gaps_def)
    next
      assume "r \<in> set R"
      then show ?thesis using "3.prems"(2) by (rule ih)
    qed
  qed
qed

lemma boundary_gaps_Cons:
  "rs \<noteq> [] \<Longrightarrow> boundary_gaps (r # rs) = \<bar>fst (hd (hd rs)) - fst (last r)\<bar> # boundary_gaps rs"
  by (cases rs) (simp_all add: boundary_gaps_def)

lemma boundary_gaps_single: "boundary_gaps [r] = []"
  by (simp add: boundary_gaps_def)

lemma runs_boundary: "g \<in> set (boundary_gaps (runs xs)) \<Longrightarrow> g > 60"
proof (induction xs rule: runs.induct)
  case 1
  then show ?case by (simp add: boundary_gaps_def)
next
  case (2 x)
  then show ?case by (simp add: boundary_gaps_def)
next
  case (3 x y zs)
  define R where "R = runs (y # zs)"
  have ne: "R \<noteq> []" by (simp add: R_def runs_Nil_iff)
  have h: "hd R \<noteq> []" "hd (hd R) = y" using hd_runs [of "y # zs"] by (simp_all add: R_def)
  obtain r rs where R: "R = r # rs" using ne by (cases R) auto
  have ih: "g \<in> set (boundary_gaps R) \<Longrightarrow> g > 60"
    using "3.IH" by (cases "\<bar>fst y - fst x\<bar> \<le> 60") (simp_all add: R_def)
  show ?case
  proof (cases "\<bar>fst y - fst x\<bar> \<le> 60")
    case True
    have "boundary_gaps ((x # r) # rs) = boundary_gaps (r # rs)"
      using h R by (cases rs) (simp_all add: boundary_gaps_def)
    with "3.prems" True R have "g \<in> set (boundary_gaps R)" by (simp add: R_def [symmetric])
    then show ?thesis by (rule ih)
  next
    case False
    with "3.prems" have "g \<in> set (boundary_gaps ([x] # R))" by (simp add: R_def)
    then have "g = \<bar>fst y - fst x\<bar> \<or> g \<in> set (boundary_gaps R)"
      using ne h by (simp add: boundary_gaps_Cons)
    then show ?thesis using False ih by auto
  qed
qed

lemma runs_snoc:
  "xs \<noteq> [] \<Longrightarrow> runs (xs @ [y]) =
     (if \<bar>fst y - fst (last xs)\<bar> \<le> 60 then butlast (runs xs) @ [last (runs xs) @ [y]]
      else runs xs @ [[y]])"
proof (induction xs rule: runs.induct)
  case 1
  then show ?case by simp
next
  case (2 x)
  then show ?case by simp
next
  case (3 x z zs)
  define R where "R = runs (z # zs)"
  have ne: "R \<noteq> []" by (simp add: R_def runs_Nil_iff)
  then obtain r rs where R: "R = r # rs" by (cases R) auto
  have ih: "runs (z # zs @ [y]) =
     (if \<bar>fst y - fst (last (z # zs))\<bar> \<le> 60 then butlast R @ [last R @ [y]] else R @ [[y]])"
    using "3.IH" by (cases "\<bar>fst z - fst x\<bar> \<le> 60") (simp_all add: R_def)
  have l: "last (x # z # zs) = last (z # zs)" by simp
  show ?case
  proof (cases "\<bar>fst y - fst (last (z # zs))\<bar> \<le> 60")
    case True
    with ih have e: "runs (z # zs @ [y]) = butlast R @ [last R @ [y]]" by simp
    show ?thesis
    proof (cases rs)
      case Nil
      with e R True show ?thesis by (simp add: R_def [symmetric])
    next
      case (Cons s ss)
      with e R True show ?thesis by (simp add: R_def [symmetric])
    qed
  next
    case False
    with ih have e: "runs (z # zs @ [y]) = R @ [[y]]" by simp
    with R False show ?thesis by (simp add: R_def [symmetric])
  qed
qed

lemma last_last_runs: "xs \<noteq> [] \<Longrightarrow> last (last (runs xs)) = last xs"
proof (induction xs rule: runs.induct)
  case (3 x y zs)
  define R where "R = runs (y # zs)"
  have ne: "R \<noteq> []" by (simp add: R_def runs_Nil_iff)
  have h: "hd R \<noteq> []" using hd_runs [of "y # zs"] by (simp add: R_def)
  from "3.IH" have ih: "last (last R) = last (y # zs)"
    by (cases "\<bar>fst y - fst x\<bar> \<le> 60") (simp_all add: R_def)
  obtain r rs where R: "R = r # rs" using ne by (cases R) auto
  show ?case using ih h R by (cases rs) (auto simp: R_def [symmetric])
qed simp_all

lemma scan_inv_initial: "scan_inv initial_scan_state"
  by (simp add: scan_inv_def initial_scan_state_def)

lemma detected_loop_body:
  "detected_frame_indices (loop_body frame_index frame detected st)
     = detected_frame_indices st @ (if detected then [(frame_index, frame)] else [])"
  by (simp add: loop_body_def Let_def)

lemma scan_inv_loop_body:
  assumes "scan_inv st" and below: "\<forall>x\<in>set (detected_frame_indices st). fst x < frame_index"
  shows "scan_inv (loop_body frame_index frame detected st)"
proof (cases detected)
  case False
  with assms(1) show ?thesis by (simp add: loop_body_def)
next
  case True
  define d where "d = detected_frame_indices st"
  define y where "y = (frame_index, frame)"
  show ?thesis
  proof (cases "d = []")
    case e: True
    with assms(1) have "current_episode st = []" "class_episodes st = []"
      by (simp_all add: scan_inv_def d_def)
    with True e show ?thesis by (simp add: loop_body_def scan_inv_def d_def)
  next
    case ne: False
    define R where "R = runs d"
    have Rne: "R \<noteq> []" using ne by (simp add: R_def runs_Nil_iff)
    from assms(1) ne have cur: "current_episode st = last R"
      and eps: "class_episodes st = map (\<lambda>r. (hd r, last r)) (filter (\<lambda>r. length r \<ge> 2) (butlast R))"
      by (simp_all add: scan_inv_def d_def R_def)
    have "last d \<in> set d" using ne by simp
    with below have "fst (last d) < frame_index" by (simp add: d_def)
    then have ab: "\<bar>frame_index - fst (last d)\<bar> = frame_index - fst (last d)" by simp
    have "last R \<in> set R" using Rne by simp
    then have cne: "current_episode st \<noteq> []" using runs_nonempty cur R_def by metis
    have ll: "last (current_episode st) = last d"
      using last_last_runs [OF ne] cur by (simp add: R_def)
    have sn: "runs (d @ [y]) = (if frame_index - fst (last d) \<le> 60
                 then butlast R @ [last R @ [y]] else R @ [[y]])"
      using runs_snoc [OF ne, of y] ab by (simp add: R_def y_def)
    have bl: "butlast R @ [last R] = R" using Rne by simp
    show ?thesis
    proof (cases "frame_index - fst (last d) \<le> 60")
      case c: True
      with True cne ll sn cur eps show ?thesis
        by (simp add: loop_body_def Let_def scan_inv_def d_def [symmetric] y_def [symmetric])
    next
      case c: False
      have "map (\<lambda>r. (hd r, last r)) (filter (\<lambda>r. length r \<ge> 2) R)
              = map (\<lambda>r. (hd r, last r)) (filter (\<lambda>r. length r \<ge> 2) (butlast R))
                @ (if length (last R) \<ge> 2 then [(hd (last R), last (last R))] else [])"
        by (subst bl [symmetric]) (simp del: append_butlast_last_id)
      with c True cne ll sn cur eps show ?thesis
        by (simp add: loop_body_def Let_def scan_inv_def d_def [symmetric] y_def [symmetric])
    qed
  qed
qed

lemma scan_loop_inv:
  assumes "scan_loop v step k frame_index st = Some res" and "0 < step" and "scan_inv st"
    and "\<forall>x\<in>set (detected_frame_indices st). fst x < frame_index"
  shows "scan_inv (snd res)"
proof -
  have "0 < step \<and> scan_inv st \<and> (\<forall>x\<in>set (detected_frame_indices st). fst x < frame_index)
          \<longrightarrow> scan_inv (snd res)"
  proof (rule scan_loop.raw_induct
      [where P = "\<lambda>v step k frame_index st res.
            0 < step \<and> scan_inv st \<and> (\<forall>x\<in>set (detected_frame_indices st). fst x < frame_index)
              \<longrightarrow> scan_inv (snd res)", OF _ assms(1)])
    fix f :: "'a video \<Rightarrow> int \<Rightarrow> nat \<Rightarrow> int \<Rightarrow> 'a scan_state \<Rightarrow> (int \<times> 'a scan_state) option"
    fix v step k frame_index st res
    assume ih: "\<And>v step k frame_index st res.
                  f v step k frame_index st = Some res \<Longrightarrow>
                  0 < step \<and> scan_inv st \<and> (\<forall>x\<in>set (detected_frame_indices st). fst x < frame_index)
                    \<longrightarrow> scan_inv (snd res)"
    assume eq: "(if frame_index < total_frames v \<and> \<not> stopped_at v k
                 then case read_frame v frame_index of
                        None \<Rightarrow> Some (frame_index, st)
                      | Some frame \<Rightarrow>
                          f v step (Suc k) (frame_index + step)
                            (loop_body frame_index frame (detects v frame) st)
                 else Some (frame_index, st)) = Some res"
    show "0 < step \<and> scan_inv st \<and> (\<forall>x\<in>set (detected_frame_indices st). fst x < frame_index)
            \<longrightarrow> scan_inv (snd res)"
    proof
      assume pre: "0 < step \<and> scan_inv st \<and> (\<forall>x\<in>set (detected_frame_indices st). fst x < frame_index)"
      then have pos: "0 < step" and inv: "scan_inv st"
        and below: "\<forall>x\<in>set (detected_frame_indices st). fst x < frame_index" by simp_all
      show "scan_inv (snd res)"
      proof (cases "frame_index < total_frames v \<and> \<not> stopped_at v k")
        case False
        with eq inv show ?thesis by auto
      next
        case True
        show ?thesis
        proof (cases "read_frame v frame_index")
          case None
          with True eq inv show ?thesis by auto
        next
          case (Some frame)
          with True eq have run: "f v step (Suc k) (frame_index + step)
                   (loop_body frame_index frame (detects v frame) st) = Some res" by simp
          have inv': "scan_inv (loop_body frame_index frame (detects v frame) st)"
            using inv below by (rule scan_inv_loop_body)
          have below': "\<forall>x\<in>set (detected_frame_indices
                            (loop_body frame_index frame (detects v frame) st)). fst x < frame_index + step"
            using below pos by (auto simp: detected_loop_body)
          from ih [OF run] pos inv' below' show ?thesis by blast
        qed
      qed
    qed
  qed
  with assms(2,3,4) show ?thesis by simp
qed

lemma close_episodes_recorded:
  assumes "scan_inv st"
  shows "close_episodes st = recorded (detected_frame_indices st)"
proof (cases "detected_frame_indices st = []")
  case True
  with assms show ?thesis by (simp add: scan_inv_def close_episodes_def recorded_def)
next
  case False
  define R where "R = runs (detected_frame_indices st)"
  have Rne: "R \<noteq> []" using False by (simp add: R_def runs_Nil_iff)
  from assms False have cur: "current_episode st = last R"
    and eps: "class_episodes st = map (\<lambda>r. (hd r, last r)) (filter (\<lambda>r. length r \<ge> 2) (butlast R))"
    by (simp_all add: scan_inv_def R_def)
  have bl: "butlast R @ [last R] = R" using Rne by simp
  have "map (\<lambda>r. (hd r, last r)) (filter (\<lambda>r. length r \<ge> 2) R)
              = map (\<lambda>r. (hd r, last r)) (filter (\<lambda>r. length r \<ge> 2) (butlast R))
                @ (if length (last R) \<ge> 2 then [(hd (last R), last (last R))] else [])"
    by (subst bl [symmetric]) (simp del: append_butlast_last_id)
  with cur eps show ?thesis
    by (auto simp: close_episodes_def recorded_def R_def [symmetric])
qed

lemma scan_loop_terminates:
  assumes "0 < step"
  shows "\<exists>res. scan_loop v step k frame_index st = Some res"
proof (induction "nat (total_frames v - frame_index)" arbitrary: k frame_index st rule: less_induct)
  case less
  show ?case
  proof (cases "frame_index < total_frames v \<and> \<not> stopped_at v k")
    case False
    then show ?thesis by (subst scan_loop.simps) auto
  next
    case True
    show ?thesis
    proof (cases "read_frame v frame_index")
      case None
      with True show ?thesis by (subst scan_loop.simps) auto
    next
      case (Some frame)
      have "nat (total_frames v - (frame_index + step)) < nat (total_frames v - frame_index)"
        using True assms by auto
      from less [OF this] obtain res where
        "scan_loop v step (Suc k) (frame_index + step)
           (loop_body frame_index frame (detects v frame) st) = Some res" by blast
      with True Some show ?thesis by (subst scan_loop.simps) auto
    qed
  qed
qed

text \<open>
  C8 (as amended).  When the frame step is positive, the episodes recorded by a run of
  the extractor are the (first, last) pairs of the maximal runs of detected frames whose
  consecutive frame indices differ by at most 60, restricted to the runs of at least two
  frames: the runs concatenate to the detected frames, no two neighbours inside a run
  are more than 60 apart, the last frame of a run and the first frame of the next one
  are, and every exported frame is the first or the last frame of a run of two frames
  or more.
\<close>

theorem episodes_are_maximal_runs:
  assumes "scan_loop v step 0 start initial_scan_state = Some (frame_index, st)"
    and "0 < step"
  shows "close_episodes st = recorded (detected_frame_indices st)
       \<and> concat (runs (detected_frame_indices st)) = detected_frame_indices st
       \<and> (\<forall>r\<in>set (runs (detected_frame_indices st)). r \<noteq> [] \<and> (\<forall>g\<in>set (gaps r). g \<le> 60))
       \<and> (\<forall>g\<in>set (boundary_gaps (runs (detected_frame_indices st))). g > 60)
       \<and> (\<forall>e\<in>set (close_episodes st). \<exists>r\<in>set (runs (detected_frame_indices st)).
             length r \<ge> 2 \<and> e = (hd r, last r))
       \<and> (\<forall>x\<in>set (all_detected (close_episodes st)). \<exists>r\<in>set (runs (detected_frame_indices st)).
             length r \<ge> 2 \<and> (x = hd r \<or> x = last r))"
proof -
  have "\<forall>x\<in>set (detected_frame_indices (initial_scan_state :: 'a scan_state)). fst x < start"
    by (simp add: initial_scan_state_def)
  from scan_loop_inv [OF assms scan_inv_initial this] have "scan_inv st" by simp
  then have a: "close_episodes st = recorded (detected_frame_indices st)"
    by (rule close_episodes_recorded)
  have b: "\<forall>e\<in>set (recorded ds). \<exists>r\<in>set (runs ds). length r \<ge> 2 \<and> e = (hd r, last r)" for ds :: "'a indexed_frame list"
    by (auto simp: recorded_def)
  have c: "\<forall>x\<in>set (all_detected (recorded ds)). \<exists>r\<in>set (runs ds). length r \<ge> 2 \<and> (x = hd r \<or> x = last r)"
    for ds :: "'a indexed_frame list"
    by (auto simp: recorded_def all_detected_def)
  show ?thesis
    unfolding a using concat_runs runs_nonempty runs_gaps runs_boundary b c by blast
qed

text \<open>
  C8 (as stated) fails for a negative step: reading backwards from frame 100 by steps of
  \<open>-10\<close> with the class on frames 100, 90, 10 and 0, the extractor records the single
  episode from frame 100 to frame 0, although frames 90 and 10 are 80 apart; the runs of
  neighbours at most 60 apart are 100..90 and 10..0.
\<close>

theorem backward_episode_spans_gap:
  "map_option (close_episodes \<circ> snd) (scan_loop backward_video (- 10) 0 100 initial_scan_state)
     = Some [((100, 100), (0, 0))]
   \<and> map_option (detected_frame_indices \<circ> snd) (scan_loop backward_video (- 10) 0 100 initial_scan_state)
     = Some [(100, 100), (90, 90), (10, 10), (0, 0)]
   \<and> gaps [(100, 100), (90, 90), (10, 10), (0, 0::int)] = [10, 80, 10]
   \<and> recorded [(100, 100), (90, 90), (10, 10), (0, 0::int)]
     = [((100, 100), (90, 90)), ((10, 10), (0, 0))]"
  by code_simp

theorem episodes_are_maximal_runs_witness:
  "scan_loop example_video 10 0 0 initial_scan_state
     = Some (400, \<lparr>detected_frame_indices = [(0, 0), (30, 30), (60, 60), (200, 200), (300, 300)],
                   class_episodes = [((0, 0), (60, 60))], current_episode = [(300, 300)]\<rparr>)
   \<and> close_episodes \<lparr>detected_frame_indices = [(0, 0), (30, 30), (60, 60), (200, 200), (300, 300::int)],
                   class_episodes = [((0, 0), (60, 60))], current_episode = [(300, 300)]\<rparr>
       = [((0, 0), (60, 60))]
   \<and> runs [(0, 0), (30, 30), (60, 60), (200, 200), (300, 300::int)]
       = [[(0, 0), (30, 30), (60, 60)], [(200, 200)], [(300, 300)]]
   \<and> gaps [(0, 0), (30, 30), (60, 60::int)] = [30, 30]
   \<and> boundary_gaps [[(0, 0), (30, 30), (60, 60)], [(200, 200)], [(300, 300::int)]] = [140, 100]"
proof -
  have h: "scan_loop example_video 10 0 0 initial_scan_state
     = Some (400, \<lparr>detected_frame_indices = [(0, 0), (30, 30), (60, 60), (200, 200), (300, 300)],
                   class_episodes = [((0, 0), (60, 60))], current_episode = [(300, 300)]\<rparr>)"
    by code_simp
  have r: "runs [(0, 0), (30, 30), (60, 60), (200, 200), (300, 300::int)]
       = [[(0, 0), (30, 30), (60, 60)], [(200, 200)], [(300, 300)]]" by code_simp
  have g: "gaps [(0, 0), (30, 30), (60, 60::int)] = [30, 30]" by code_simp
  have b: "boundary_gaps [[(0, 0), (30, 30), (60, 60)], [(200, 200)], [(300, 300::int)]] = [140, 100]"
    by code_simp
  have c: "recorded [(0, 0), (30, 30), (60, 60), (200, 200), (300, 300::int)] = [((0, 0), (60, 60))]"
    by code_simp
  have s: "(0::int) < 10" by simp
  from episodes_are_maximal_runs [OF h s] c have
    "close_episodes \<lparr>detected_frame_indices = [(0, 0), (30, 30), (60, 60), (200, 200), (300, 300::int)],
                   class_episodes = [((0, 0), (60, 60))], current_episode = [(300, 300)]\<rparr>
       = [((0, 0), (60, 60))]" by simp
  with h r g b show ?thesis by simp
qed

section \<open>Properties of the float operations\<close>

lemma pow2_powi: "pow2 e = 2 powi e"
  by (simp add: pow2_def power_int_def inverse_eq_divide power_one_over)

lemma pow2_pos: "0 < pow2 e"
  by (simp add: pow2_powi)

lemma pow2_add: "pow2 (a + b) = pow2 a * pow2 b"
  by (simp add: pow2_powi power_int_add)

lemma pow2_mono: "a \<le> b \<Longrightarrow> pow2 a \<le> pow2 b"
  by (simp add: pow2_powi power_int_increasing)

lemma pow2_nat: "pow2 (int n) = 2 ^ n"
  by (simp add: pow2_def)

lemma bit_length_upper: "n < 2 ^ bit_length n"
proof (induction n rule: bit_length.induct)
  case (1 n)
  show ?case
  proof (cases "n \<le> 0")
    case True
    then show ?thesis by (subst bit_length.simps) simp
  next
    case False
    with 1 have "n div 2 < 2 ^ bit_length (n div 2)" by simp
    then have "n < 2 * 2 ^ bit_length (n div 2)" by linarith
    with False show ?thesis by (subst bit_length.simps) simp
  qed
qed

lemma bit_length_pos: "0 < n \<Longrightarrow> 0 < bit_length n"
  by (subst bit_length.simps) simp

lemma bit_length_lower: "0 < n \<Longrightarrow> 2 ^ (bit_length n - 1) \<le> n"
proof (induction n rule: bit_length.induct)
  case (1 n)
  show ?case
  proof (cases "n div 2 \<le> 0")
    case True
    with 1(2) have "n = 1" by linarith
    then show ?thesis by (subst bit_length.simps) (simp add: bit_length.simps [of 0])
  next
    case False
    with 1 have "2 ^ (bit_length (n div 2) - 1) \<le> n div 2" by simp
    moreover have "0 < bit_length (n div 2)" using False by (simp add: bit_length_pos)
    ultimately have "2 ^ bit_length (n div 2) \<le> 2 * (n div 2)"
      by (cases "bit_length (n div 2)") simp_all
    also have "\<dots> \<le> n" by linarith
    finally show ?thesis using 1(2) by (subst bit_length.simps) simp
  qed
qed

lemma floor_log2_lower:
  assumes pos: "0 < x"
  shows "pow2 (floor_log2 x) \<le> x"
proof (cases "1 \<le> x")
  case True
  define n where "n = \<lfloor>x\<rfloor>"
  have n: "0 < n" using True by (simp add: n_def)
  have "(2::rat) ^ (bit_length n - 1) = of_int (2 ^ (bit_length n - 1))" by simp
  also have "\<dots> \<le> of_int n" using bit_length_lower [OF n] by (simp only: of_int_le_iff)
  also have "\<dots> \<le> x" by (simp add: n_def)
  finally have "(2::rat) ^ (bit_length n - 1) \<le> x" .
  moreover have "floor_log2 x = int (bit_length n - 1)"
    using True bit_length_pos [OF n] by (simp add: floor_log2_def n_def)
  ultimately show ?thesis by (simp add: pow2_nat)
next
  case False
  define n where "n = \<lceil>1 / x\<rceil> - 1"
  have "1 / x \<le> of_int \<lceil>1 / x\<rceil>" by simp
  also have "\<dots> = of_int n + 1" by (simp add: n_def)
  also have "of_int n + 1 \<le> (2 ^ bit_length n :: rat)"
  proof -
    have "n + 1 \<le> 2 ^ bit_length n" using bit_length_upper [of n] by simp
    then have "(of_int (n + 1) :: rat) \<le> of_int (2 ^ bit_length n)" by (simp only: of_int_le_iff)
    then show ?thesis by simp
  qed
  finally have "1 / x \<le> 2 ^ bit_length n" .
  then have "1 / 2 ^ bit_length n \<le> x"
    using pos by (simp add: field_simps)
  moreover have "floor_log2 x = - int (bit_length n)"
    using False by (simp add: floor_log2_def n_def)
  ultimately show ?thesis by (simp add: pow2_powi power_int_minus_divide)
qed

lemma floor_log2_upper:
  assumes pos: "0 < x"
  shows "x < pow2 (floor_log2 x + 1)"
proof (cases "1 \<le> x")
  case True
  define n where "n = \<lfloor>x\<rfloor>"
  have n: "0 < n" using True by (simp add: n_def)
  have "x < of_int n + 1" unfolding n_def using floor_correct [of x] by linarith
  also have "of_int n + 1 \<le> (2 ^ bit_length n :: rat)"
  proof -
    have "n + 1 \<le> 2 ^ bit_length n" using bit_length_upper [of n] by simp
    then have "(of_int (n + 1) :: rat) \<le> of_int (2 ^ bit_length n)" by (simp only: of_int_le_iff)
    then show ?thesis by simp
  qed
  finally have "x < 2 ^ bit_length n" .
  moreover have "floor_log2 x + 1 = int (bit_length n)"
    using True bit_length_pos [OF n] by (simp add: floor_log2_def n_def)
  ultimately show ?thesis by (simp add: pow2_nat)
next
  case False
  define n where "n = \<lceil>1 / x\<rceil> - 1"
  from False pos have "1 < 1 / x" by simp
  then have "1 < \<lceil>1 / x\<rceil>" by (simp add: less_ceiling_iff)
  then have n: "0 < n" by (simp add: n_def)
  have "(2::rat) ^ (bit_length n - 1) = of_int (2 ^ (bit_length n - 1))" by simp
  also have "\<dots> \<le> of_int n" using bit_length_lower [OF n] by (simp only: of_int_le_iff)
  also have "\<dots> < 1 / x" unfolding n_def using ceiling_correct [of "1 / x"] by simp
  finally have "(2::rat) ^ (bit_length n - 1) < 1 / x" .
  then have lt: "x < 1 / 2 ^ (bit_length n - 1)" using pos by (simp add: field_simps)
  have "floor_log2 x + 1 = - int (bit_length n - 1)"
    using False bit_length_pos [OF n] by (simp add: floor_log2_def n_def)
  then show ?thesis using lt by (simp add: pow2_powi power_int_minus_divide)
qed

lemma floor_log2_nonneg: "1 \<le> x \<Longrightarrow> 0 \<le> floor_log2 x"
proof -
  assume a: "1 \<le> x"
  then have "0 < \<lfloor>x\<rfloor>" by simp
  from bit_length_pos [OF this] a show ?thesis by (simp add: floor_log2_def)
qed

lemma round_half_even_upper: "of_int (round_half_even x) \<le> x + 1 / 2"
  by (auto simp: round_half_even_def Let_def) linarith+

lemma round_half_even_lower: "x - 1 / 2 \<le> of_int (round_half_even x)"
  by (auto simp: round_half_even_def Let_def) linarith+

lemma round_half_even_floor: "\<lfloor>x\<rfloor> \<le> round_half_even x"
  by (auto simp: round_half_even_def Let_def)

lemma round_half_even_small: "0 \<le> x \<Longrightarrow> x < 1 / 2 \<Longrightarrow> round_half_even x = 0"
proof -
  assume "0 \<le> x" "x < 1 / 2"
  then have "\<lfloor>x\<rfloor> = 0" by (simp add: floor_eq_iff)
  with \<open>x < 1 / 2\<close> show ?thesis by (simp add: round_half_even_def Let_def)
qed

lemma round_to_double_bounds:
  assumes "0 \<le> x" and "x < pow2 1023"
  shows "\<exists>v. round_to_double x = Finite v \<and> 0 \<le> v \<and> v \<le> 2 * x"
proof (cases "x = 0")
  case True
  then show ?thesis by (simp add: round_to_double_def)
next
  case False
  with assms have pos: "0 < x" by simp
  define e where "e = max (floor_log2 x - 52) (- 1074)"
  define y where "y = x / pow2 e"
  define m where "m = round_half_even y"
  define v where "v = of_int m * pow2 e"
  have ypos: "0 \<le> y" using pos pow2_pos [of e] by (simp add: y_def)
  have "0 \<le> \<lfloor>y\<rfloor>" using ypos by simp
  then have m0: "0 \<le> m" using round_half_even_floor [of y] unfolding m_def by linarith
  then have v0: "0 \<le> v" using pow2_pos [of e] by (simp add: v_def)
  have my: "of_int m \<le> 2 * y"
  proof (cases "y < 1 / 2")
    case True
    with ypos have "m = 0" unfolding m_def by (rule round_half_even_small)
    with ypos show ?thesis by simp
  next
    case False
    have "of_int m \<le> y + 1 / 2" unfolding m_def by (rule round_half_even_upper)
    with False show ?thesis by simp
  qed
  have "v \<le> 2 * y * pow2 e"
    unfolding v_def using my pow2_pos [of e] by (simp add: mult_right_mono)
  also have "\<dots> = 2 * x" using pow2_pos [of e] by (simp add: y_def)
  finally have v2: "v \<le> 2 * x" .
  have "pow2 1024 = 2 * pow2 1023" using pow2_add [of 1 1023] by (simp add: pow2_def)
  with v2 assms(2) have fin: "\<not> pow2 1024 \<le> v" by simp
  have "round_to_double x = Finite v"
    using False pos fin
    by (simp add: round_to_double_def Let_def e_def [symmetric] y_def [symmetric]
        m_def [symmetric] v_def [symmetric])
  with v0 v2 show ?thesis by blast
qed

lemma pow2_less_imp: "pow2 a < pow2 b \<Longrightarrow> a < b"
  using pow2_mono [of b a] by (cases "a < b") auto

lemma pow2_split: "pow2 (k + 1) = pow2 53 * pow2 (k - 52)"
proof -
  have "k + 1 = 53 + (k - 52)" by simp
  then show ?thesis by (simp only: pow2_add)
qed

lemma pow2_Suc: "pow2 (k + 1) = 2 * pow2 k"
  by (simp add: pow2_powi power_int_add)

lemma floor_log2_unique:
  assumes "0 < x" and "pow2 k \<le> x" and "x < pow2 (k + 1)"
  shows "floor_log2 x = k"
proof -
  have "pow2 k < pow2 (floor_log2 x + 1)"
    using assms(2) floor_log2_upper [OF assms(1)] by simp
  then have "k < floor_log2 x + 1" by (rule pow2_less_imp)
  moreover have "pow2 (floor_log2 x) < pow2 (k + 1)"
    using assms(3) floor_log2_lower [OF assms(1)] by simp
  then have "floor_log2 x < k + 1" by (rule pow2_less_imp)
  ultimately show ?thesis by simp
qed

lemma round_half_even_unique:
  assumes "\<bar>x - of_int m\<bar> < 1 / 2"
  shows "round_half_even x = m"
proof (cases "of_int m \<le> x")
  case True
  with assms have "\<lfloor>x\<rfloor> = m" by (simp add: floor_eq_iff)
  with assms True show ?thesis by (simp add: round_half_even_def Let_def)
next
  case False
  with assms have f: "\<lfloor>x\<rfloor> = m - 1" by (simp add: floor_eq_iff)
  from False assms have "1 / 2 < x - of_int (m - 1)" by simp
  with f show ?thesis by (simp add: round_half_even_def Let_def)
qed

lemma round_to_double_eq:
  assumes "x \<noteq> 0" and "pow2 k \<le> \<bar>x\<bar>" and "\<bar>x\<bar> < pow2 (k + 1)"
    and "- 1022 \<le> k" and "k \<le> 1022"
    and "\<bar>\<bar>x\<bar> / pow2 (k - 52) - of_int m\<bar> < 1 / 2"
    and "v = (if 0 < x then of_int m * pow2 (k - 52) else - (of_int m * pow2 (k - 52)))"
  shows "round_to_double x = Finite v"
proof -
  define a where "a = \<bar>x\<bar>"
  have pos: "0 < a" using assms(1) by (simp add: a_def)
  have k: "floor_log2 a = k"
    using pos assms(2,3) unfolding a_def [symmetric] by (rule floor_log2_unique)
  have e: "max (k - 52) (- 1074) = k - 52" using assms(4) by simp
  define y where "y = a / pow2 (k - 52)"
  have m: "round_half_even y = m"
    using assms(6) unfolding a_def [symmetric] y_def [symmetric] by (rule round_half_even_unique)
  have ep: "0 < pow2 (k - 52)" by (rule pow2_pos)
  have "y < pow2 53"
  proof -
    have "pow2 (k + 1) = pow2 53 * pow2 (k - 52)" by (rule pow2_split)
    with assms(3) ep show ?thesis by (simp add: y_def a_def pos_divide_less_eq)
  qed
  moreover have "of_int m < y + 1 / 2" using assms(6) unfolding a_def [symmetric] y_def [symmetric] by linarith
  moreover have "pow2 53 = 2 ^ 53" by (simp add: pow2_def)
  ultimately have "of_int m < (2 ^ 53 + 1 :: rat)" by linarith
  then have "(of_int m :: rat) < of_int (2 ^ 53 + 1)" by simp
  then have "m < 2 ^ 53 + 1" by (simp only: of_int_less_iff)
  then have "m \<le> 2 ^ 53" by simp
  then have "(of_int m :: rat) \<le> of_int (2 ^ 53)" by (simp only: of_int_le_iff)
  then have "(of_int m :: rat) \<le> 2 ^ 53" by simp
  then have "of_int m * pow2 (k - 52) \<le> 2 ^ 53 * pow2 (k - 52)"
    using ep by (simp add: mult_right_mono)
  also have "\<dots> = pow2 (k + 1)" using pow2_split [of k] by (simp add: pow2_def)
  also have "\<dots> \<le> pow2 1023" using assms(5) by (intro pow2_mono) simp
  also have "\<dots> < pow2 1024" using pow2_Suc [of 1023] pow2_pos [of 1023] by simp
  finally have fin: "\<not> pow2 1024 \<le> of_int m * pow2 (k - 52)" by simp
  show ?thesis
    using assms(1) fin
    by (simp add: round_to_double_def Let_def a_def [symmetric] k e y_def [symmetric] m assms(7))
qed

lemma round_to_double_error:
  assumes "pow2 (- 1022) \<le> x" and "x < pow2 1023"
  shows "\<exists>v. round_to_double x = Finite v \<and> x / 2 < v \<and> v \<le> x * (1 + 1 / 2 ^ 53)"
proof -
  have p0: "0 < pow2 (- 1022)" by (rule pow2_pos)
  with assms have pos: "0 < x" and nz: "x \<noteq> 0" by simp_all
  define k where "k = floor_log2 x"
  define e where "e = max (k - 52) (- 1074)"
  define y where "y = x / pow2 e"
  define m where "m = round_half_even y"
  define v where "v = of_int m * pow2 e"
  have kx: "pow2 k \<le> x" unfolding k_def using pos by (rule floor_log2_lower)
  have xk: "x < pow2 (k + 1)" unfolding k_def using pos by (rule floor_log2_upper)
  with assms(1) have "pow2 (- 1022) < pow2 (k + 1)" by simp
  then have "- 1022 < k + 1" by (rule pow2_less_imp)
  then have e: "e = k - 52" by (simp add: e_def)
  have pk: "pow2 k = 2 ^ 52 * pow2 e"
    using pow2_add [of 52 e] by (simp add: e pow2_def)
  have ep: "0 < pow2 e" by (rule pow2_pos)
  have y52: "2 ^ 52 \<le> y"
    using kx ep by (simp add: y_def pk pos_le_divide_eq)
  have "of_int m \<le> y + 1 / 2" unfolding m_def by (rule round_half_even_upper)
  then have "v \<le> (y + 1 / 2) * pow2 e" unfolding v_def using ep by (simp add: mult_right_mono)
  also have "\<dots> = x + pow2 e / 2" using ep by (simp add: y_def algebra_simps)
  also have "pow2 e / 2 \<le> x / 2 ^ 53" using kx by (simp add: pk)
  finally have up: "v \<le> x * (1 + 1 / 2 ^ 53)" by (simp add: algebra_simps)
  have "(2::int) ^ 52 \<le> \<lfloor>y\<rfloor>" using y52 by (simp add: le_floor_iff)
  then have "2 ^ 52 \<le> m" using round_half_even_floor [of y] unfolding m_def by linarith
  then have "(of_int (2 ^ 52) :: rat) \<le> of_int m" by (simp only: of_int_le_iff)
  then have "(2::rat) ^ 52 \<le> of_int m" by simp
  then have "2 ^ 52 * pow2 e \<le> v" unfolding v_def using ep by (simp add: mult_right_mono)
  then have "pow2 k \<le> v" by (simp add: pk)
  moreover have "pow2 (k + 1) = 2 * pow2 k" by (rule pow2_Suc)
  ultimately have lo: "x / 2 < v" using xk by simp
  from round_to_double_bounds [of x] assms pos obtain w where
    w: "round_to_double x = Finite w" by auto
  have "round_to_double x = Finite v"
  proof -
    have "w = v"
      using w nz pos
      by (simp add: round_to_double_def Let_def k_def [symmetric] e_def [symmetric]
          y_def [symmetric] m_def [symmetric] v_def [symmetric] split: if_splits)
    with w show ?thesis by simp
  qed
  with lo up show ?thesis by blast
qed

section \<open>Properties of the frame selection\<close>

lemma map_err_Inr:
  "\<forall>x\<in>set xs. \<exists>y. f x = Inr y \<Longrightarrow>
     \<exists>ys. map_err f xs = Inr ys \<and> length ys = length xs \<and> (\<forall>k<length xs. f (xs ! k) = Inr (ys ! k))"
proof (induction xs)
  case Nil
  show ?case by simp
next
  case (Cons x xs)
  then obtain y where y: "f x = Inr y" by auto
  from Cons obtain ys where ys: "map_err f xs = Inr ys" "length ys = length xs"
    "\<forall>k<length xs. f (xs ! k) = Inr (ys ! k)" by auto
  have "map_err f (x # xs) = Inr (y # ys)" by (simp add: y ys bind_err_def)
  moreover have "\<forall>k<length (x # xs). f ((x # xs) ! k) = Inr ((y # ys) ! k)"
    using y ys(3) by (auto simp: nth_Cons split: nat.splits)
  ultimately show ?case using ys(2) by auto
qed

lemma pow2_small: "pow2 (- 1022) \<le> 1 / 4"
proof -
  have "pow2 (- 1022) \<le> pow2 (- 2)" by (rule pow2_mono) simp
  then show ?thesis by (simp add: pow2_def)
qed

lemma pow2_large: "2 ^ 102 \<le> pow2 1022"
proof -
  have "pow2 102 \<le> pow2 1022" by (rule pow2_mono) simp
  then show ?thesis by (simp add: pow2_def)
qed

lemma pow2_1023: "pow2 1023 = 2 * pow2 1022"
  using pow2_Suc [of 1022] by simp

lemma below_pow2_1023: "x \<le> 2 ^ 102 \<Longrightarrow> x < pow2 1023"
  using pow2_large pow2_1023 pow2_pos [of 1022] by linarith

lemma of_int_below: "n < 2 ^ 50 \<Longrightarrow> (of_int n :: rat) < 2 ^ 50"
proof -
  assume "n < 2 ^ 50"
  then have "(of_int n :: rat) < of_int (2 ^ 50)" by (simp only: of_int_less_iff)
  then show ?thesis by simp
qed

lemma pow_50_102: "(2 ^ 50 :: rat) \<le> 2 ^ 102"
  by simp

lemma ulp_cube: "(1 + 1 / 2 ^ 53) ^ 3 \<le> (1 + 1 / 2 ^ 51 :: rat)"
  by (simp add: power3_eq_cube)

lemma float_of_int_error:
  assumes "1 \<le> n" and "n < 2 ^ 50"
  shows "\<exists>v. float_of_int n = Inr (Finite v) \<and> 1 / 2 < v \<and> v \<le> of_int n * (1 + 1 / 2 ^ 53)"
proof -
  have n1: "(1::rat) \<le> of_int n" using assms(1) by simp
  have a: "pow2 (- 1022) \<le> (of_int n :: rat)" using pow2_small n1 by linarith
  have b: "(of_int n :: rat) < pow2 1023"
    using of_int_below [OF assms(2)] pow_50_102 by (intro below_pow2_1023) linarith
  from round_to_double_error [OF a b] obtain v where
    v: "round_to_double (of_int n) = Finite v" "of_int n / 2 < v" "v \<le> of_int n * (1 + 1 / 2 ^ 53)"
    by blast
  from n1 v(2) have "1 / 2 < v" by linarith
  with v show ?thesis by (auto simp: float_of_int_def)
qed

lemma spaced_index_in_range:
  assumes Mge: "1 \<le> M" and MltL: "M < L" and L50: "L < 2 ^ 50" and i0: "0 \<le> i" and iM: "i < M"
  shows "\<exists>q j. int_truediv L M = Inr q \<and> spaced_index q i = Inr j \<and> 0 \<le> j \<and> j < L"
proof -
  define u where "u = (1 / 2 ^ 53 :: rat)"
  define x0 where "x0 = (of_int L / of_int M :: rat)"
  have Mpos: "(0::rat) < of_int M" using Mge by simp
  have Lpos: "(0::rat) < of_int L" using Mge MltL by simp
  have x01: "1 \<le> x0" using Mge MltL Mpos by (simp add: x0_def)
  have L102: "(of_int L :: rat) < 2 ^ 50" using L50 by (rule of_int_below)
  have x0L: "x0 \<le> of_int L"
  proof -
    have "of_int L \<le> (of_int L :: rat) * of_int M" using Mge Lpos by (simp add: mult_le_cancel_left1)
    then show ?thesis using Mpos by (simp add: x0_def divide_le_eq)
  qed
  have a: "pow2 (- 1022) \<le> x0" using pow2_small x01 by linarith
  have b: "x0 < pow2 1023" using x0L L102 pow_50_102 by (intro below_pow2_1023) linarith
  from round_to_double_error [OF a b] obtain qv where
    qv: "round_to_double x0 = Finite qv" "x0 / 2 < qv" "qv \<le> x0 * (1 + u)"
    unfolding u_def by blast
  have q: "int_truediv L M = Inr (Finite qv)"
    using Mge qv(1) by (simp add: int_truediv_def x0_def)
  show ?thesis
  proof (cases "i = 0")
    case True
    have "spaced_index (Finite qv) 0 = Inr 0"
      by (simp add: spaced_index_def int_times_float_def float_of_int_def round_to_double_def bind_err_def)
    with q True Mge MltL show ?thesis by auto
  next
    case False
    with i0 have i1: "1 \<le> i" by simp
    have i50: "i < 2 ^ 50" using iM MltL L50 by simp
    from float_of_int_error [OF i1 i50] obtain fi where
      fi: "float_of_int i = Inr (Finite fi)" "1 / 2 < fi" "fi \<le> of_int i * (1 + u)"
      unfolding u_def by blast
    define x2 where "x2 = fi * qv"
    have qvh: "1 / 2 < qv" using qv(2) x01 by linarith
    have "1 / 2 * (1 / 2) \<le> fi * qv"
      using fi(2) qvh by (intro mult_mono) simp_all
    then have c: "pow2 (- 1022) \<le> x2" using pow2_small by (simp add: x2_def)
    have u0: "0 \<le> u" "1 + u \<le> 2" by (simp_all add: u_def)
    have ipos: "(0::rat) \<le> of_int i" using i0 by simp
    have x2le: "x2 \<le> of_int i * (1 + u) * (x0 * (1 + u))"
      unfolding x2_def using fi(2,3) qv(3) qvh by (intro mult_mono) simp_all
    have irat: "(of_int i :: rat) < 2 ^ 50" using i50 by (rule of_int_below)
    have "of_int i * (1 + u) * (x0 * (1 + u)) \<le> 2 ^ 50 * 2 * (2 ^ 50 * 2)"
      using irat ipos u0 x0L L102 x01 by (intro mult_mono) simp_all
    also have "\<dots> = (2 ^ 102 :: rat)" by simp
    finally have "x2 \<le> 2 ^ 102" using x2le by linarith
    then have d: "x2 < pow2 1023" by (rule below_pow2_1023)
    from round_to_double_error [OF c d] obtain p where
      p: "round_to_double x2 = Finite p" "x2 / 2 < p" "p \<le> x2 * (1 + u)"
      unfolding u_def by blast
    have ppos: "0 \<le> p" using p(2) c pow2_pos [of "- 1022"] by linarith
    have "p \<le> of_int i * (1 + u) * (x0 * (1 + u)) * (1 + u)"
    proof -
      have "x2 * (1 + u) \<le> of_int i * (1 + u) * (x0 * (1 + u)) * (1 + u)"
        using x2le u0 by (intro mult_right_mono) simp_all
      with p(3) show ?thesis by linarith
    qed
    also have "\<dots> = of_int i * x0 * (1 + u) ^ 3" by (simp add: power3_eq_cube)
    also have "\<dots> \<le> of_int i * x0 * (1 + 1 / 2 ^ 51)"
      using ulp_cube ipos x01 unfolding u_def by (intro mult_left_mono) simp_all
    also have "\<dots> \<le> of_int (M - 1) * x0 * (1 + 1 / 2 ^ 51)"
    proof -
      have "i \<le> M - 1" using iM by simp
      then have "(of_int i :: rat) \<le> of_int (M - 1)" by (simp only: of_int_le_iff)
      then show ?thesis using x01 by (intro mult_right_mono) simp_all
    qed
    also have "\<dots> = (of_int (M - 1) * (1 + 1 / 2 ^ 51)) * x0" by simp
    also have "\<dots> < of_int M * x0"
    proof -
      have "M < 2 ^ 50" using MltL L50 by simp
      then have "(of_int M :: rat) < 2 ^ 50" by (rule of_int_below)
      then have "of_int (M - 1) * (1 + 1 / 2 ^ 51) < (of_int M :: rat)" by (simp add: algebra_simps)
      then show ?thesis using x01 by (intro mult_strict_right_mono) simp_all
    qed
    also have "\<dots> = of_int L" using Mpos by (simp add: x0_def)
    finally have pL: "p < of_int L" .
    have "fmul (Finite fi) (Finite qv) = Finite p" using p(1) by (simp add: x2_def)
    then have "spaced_index (Finite qv) i = Inr \<lfloor>p\<rfloor>"
      using fi(1) ppos by (simp add: spaced_index_def int_times_float_def bind_err_def)
    moreover have "0 \<le> \<lfloor>p\<rfloor>" using ppos by simp
    moreover have "\<lfloor>p\<rfloor> < L" using pL by (simp add: floor_less_iff)
    ultimately show ?thesis using q by blast
  qed
qed

lemma py_index_in_range:
  "0 \<le> j \<Longrightarrow> j < int (length xs) \<Longrightarrow> py_index xs j = Inr (xs ! nat j)"
  by (simp add: py_index_def)

lemma select_frames_spaced:
  assumes Mge: "1 \<le> M" and MltL: "M < int (length all_frames)" and L50: "length all_frames < 2 ^ 50"
  shows "\<exists>sel. select_frames all_frames M = Inr sel \<and> length sel = nat M \<and>
           (\<forall>i. 0 \<le> i \<and> i < M \<longrightarrow>
              (\<exists>j. frame_position (int (length all_frames)) M i = Inr j \<and> 0 \<le> j
                 \<and> j < int (length all_frames) \<and> sel ! nat i = all_frames ! nat j))"
proof -
  define L where "L = int (length all_frames)"
  have L50': "L < 2 ^ 50"
  proof -
    have "int (length all_frames) < int (2 ^ 50)" using L50 by (simp only: of_nat_less_iff)
    then show ?thesis by (simp add: L_def)
  qed
  have M0: "0 \<le> (0::int)" "0 < M" using Mge by simp_all
  from spaced_index_in_range [OF Mge MltL [folded L_def] L50' M0] obtain q where
    q: "int_truediv L M = Inr q" by blast
  have each: "\<exists>j. spaced_index q i = Inr j \<and> 0 \<le> j \<and> j < L" if "0 \<le> i" "i < M" for i
    using spaced_index_in_range [OF Mge MltL [folded L_def] L50' that] q by auto
  have "\<forall>i\<in>set [0..M - 1]. \<exists>j. spaced_index q i = Inr j"
  proof
    fix i assume "i \<in> set [0..M - 1]"
    then have "0 \<le> i" "i < M" by simp_all
    from each [OF this] show "\<exists>j. spaced_index q i = Inr j" by blast
  qed
  from map_err_Inr [OF this] obtain indices where
    ind: "map_err (spaced_index q) [0..M - 1] = Inr indices" "length indices = length [0..M - 1]"
      "\<forall>k<length [0..M - 1]. spaced_index q ([0..M - 1] ! k) = Inr (indices ! k)" by blast
  have len: "length indices = nat M" using ind(2) Mge by simp
  have idx: "spaced_index q i = Inr (indices ! nat i)" if "0 \<le> i" "i < M" for i
  proof -
    have "nat i < length [0..M - 1]" using that by simp
    with ind(3) have "spaced_index q ([0..M - 1] ! nat i) = Inr (indices ! nat i)" by blast
    moreover have "[0..M - 1] ! nat i = i" using that by (simp add: nth_upto)
    ultimately show ?thesis by simp
  qed
  have rng: "0 \<le> indices ! nat i \<and> indices ! nat i < L" if "0 \<le> i" "i < M" for i
    using each [OF that] idx [OF that] by auto
  have "\<forall>j\<in>set indices. \<exists>y. py_index all_frames j = Inr y"
  proof
    fix j assume "j \<in> set indices"
    then obtain k where k: "k < length indices" "j = indices ! k" by (auto simp: in_set_conv_nth)
    with len rng [of "int k"] have "0 \<le> j \<and> j < L" by auto
    then show "\<exists>y. py_index all_frames j = Inr y"
      using py_index_in_range [of j all_frames] by (auto simp: L_def)
  qed
  from map_err_Inr [OF this] obtain sel where
    sel: "map_err (py_index all_frames) indices = Inr sel" "length sel = length indices"
      "\<forall>k<length indices. py_index all_frames (indices ! k) = Inr (sel ! k)" by blast
  have sf: "select_frames all_frames M = Inr sel"
    using MltL q ind(1) sel(1) by (simp add: select_frames_def L_def [symmetric] bind_err_def)
  have "\<exists>j. frame_position L M i = Inr j \<and> 0 \<le> j \<and> j < L \<and> sel ! nat i = all_frames ! nat j"
    if "0 \<le> i \<and> i < M" for i
  proof -
    from that have i: "0 \<le> i" "i < M" by simp_all
    define j where "j = indices ! nat i"
    have fp: "frame_position L M i = Inr j"
      using q idx [OF i] by (simp add: frame_position_def bind_err_def j_def)
    have r: "0 \<le> j" "j < L" using rng [OF i] by (simp_all add: j_def)
    have "nat i < length indices" using i len by simp
    with sel(3) have "py_index all_frames j = Inr (sel ! nat i)" by (simp add: j_def)
    with py_index_in_range [of j all_frames] r have "sel ! nat i = all_frames ! nat j"
      by (simp add: L_def)
    with fp r show ?thesis by blast
  qed
  with sf sel(2) len show ?thesis unfolding L_def by auto
qed

text \<open>
  C4 (as amended).  With a limit \<open>M \<ge> 1\<close> and fewer than \<open>2 ^ 50\<close> collected frames, the
  selection succeeds and has \<open>min(L, M)\<close> frames; for \<open>L \<le> M\<close> it is the whole list, and
  for \<open>L > M\<close> slot \<open>i\<close> holds the frame at position \<open>int(i * (L / M))\<close> as double-precision
  arithmetic evaluates it, which lies within the list.
\<close>

theorem select_frames_cap:
  assumes "1 \<le> M" and "length all_frames < 2 ^ 50"
  shows "\<exists>sel. select_frames all_frames M = Inr sel
           \<and> int (length sel) = min (int (length all_frames)) M
           \<and> (int (length all_frames) \<le> M \<longrightarrow> sel = all_frames)
           \<and> (M < int (length all_frames) \<longrightarrow>
                (\<forall>i. 0 \<le> i \<and> i < M \<longrightarrow>
                   (\<exists>j. frame_position (int (length all_frames)) M i = Inr j \<and> 0 \<le> j
                      \<and> j < int (length all_frames) \<and> sel ! nat i = all_frames ! nat j)))"
proof (cases "M < int (length all_frames)")
  case True
  from select_frames_spaced [OF assms(1) True assms(2)] obtain sel where
    sel: "select_frames all_frames M = Inr sel" "length sel = nat M"
      "\<forall>i. 0 \<le> i \<and> i < M \<longrightarrow>
              (\<exists>j. frame_position (int (length all_frames)) M i = Inr j \<and> 0 \<le> j
                 \<and> j < int (length all_frames) \<and> sel ! nat i = all_frames ! nat j)" by blast
  have "int (length sel) = min (int (length all_frames)) M" using sel(2) True assms(1) by simp
  with sel True show ?thesis by auto
next
  case False
  then have "select_frames all_frames M = Inr all_frames" by (simp add: select_frames_def)
  with False show ?thesis by auto
qed

lemma position_11: "frame_position 30 22 11 = Inr 14"
proof -
  have q: "round_to_double (15 / 11) = Finite (6141272219141585 / 4503599627370496)"
    by (rule round_to_double_eq [where k = 0 and m = 6141272219141585]) (simp_all add: pow2_def)
  have e: "round_to_double 11 = Finite 11"
    by (rule round_to_double_eq [where k = 3 and m = "11 * 2 ^ 49"]) (simp_all add: pow2_def)
  have p: "round_to_double (67553994410557435 / 4503599627370496) = Finite (8444249301319679 / 562949953421312)"
    by (rule round_to_double_eq [where k = 3 and m = 8444249301319679]) (simp_all add: pow2_def)
  have a: "int_truediv 30 22 = Inr (Finite (6141272219141585 / 4503599627370496))"
    by (simp add: int_truediv_def q)
  have b: "float_of_int 11 = Inr (Finite 11)" by (simp add: float_of_int_def e)
  have c: "fmul (Finite 11) (Finite (6141272219141585 / 4503599627370496))
             = Finite (8444249301319679 / 562949953421312)" by (simp add: p)
  have "\<lfloor>8444249301319679 / 562949953421312 :: rat\<rfloor> = 14" by (rule floor_unique) simp_all
  then have d: "int_of_float (Finite (8444249301319679 / 562949953421312)) = Inr 14" by simp
  show ?thesis
    by (simp only: frame_position_def spaced_index_def int_times_float_def a b c d bind_err_def sum.case)
qed

text \<open>
  C4 (as stated) fails: with 30 collected frames and a limit of 22, slot 11 holds the
  frame at position 14, not at \<open>\<lfloor>11 * 30 / 22\<rfloor> = 15\<close>.
\<close>

theorem select_frames_not_evenly_spaced:
  "select_frames [0..29] 22 \<noteq> Inr (evenly_spaced [0..29] 22)"
proof
  assume eq: "select_frames [0..29] 22 = Inr (evenly_spaced [0..29] 22)"
  have h1: "(1::int) \<le> 22" and h2: "22 < int (length [0..29])" and h3: "length [0..29] < 2 ^ 50"
    by simp_all
  from select_frames_spaced [OF h1 h2 h3] eq have
    "\<forall>i. 0 \<le> i \<and> i < 22 \<longrightarrow>
        (\<exists>j. frame_position (int (length [0..29])) 22 i = Inr j \<and> 0 \<le> j
           \<and> j < int (length [0..29]) \<and> evenly_spaced [0..29] 22 ! nat i = [0..29] ! nat j)"
    by (simp only: sum.inject) blast
  then have "0 \<le> (11::int) \<and> (11::int) < 22 \<longrightarrow>
        (\<exists>j. frame_position (int (length [0..29])) 22 11 = Inr j \<and> 0 \<le> j
           \<and> j < int (length [0..29]) \<and> evenly_spaced [0..29] 22 ! nat 11 = [0..29] ! nat j)"
    by (rule spec)
  then obtain j where
    j: "frame_position (int (length [0..29])) 22 11 = Inr j"
       "evenly_spaced [0..29] 22 ! nat 11 = [0..29] ! nat j" by auto
  have l: "int (length [0..29]) = 30" by simp
  from j(1) position_11 have "j = 14" by (simp only: l) simp
  then have "evenly_spaced [0..29] 22 ! 11 = 14" using j(2) by (simp add: nth_upto)
  moreover have "evenly_spaced [0..29] 22 ! 11 = 15"
    by (simp add: evenly_spaced_def nth_upto)
  ultimately show False by simp
qed

theorem select_frames_cap_witness:
  "\<exists>sel. select_frames [0..29] 22 = Inr sel \<and> int (length sel) = 22 \<and> sel ! 11 = 14"
proof -
  have h1: "(1::int) \<le> 22" and h3: "length [0..29] < 2 ^ 50" by simp_all
  from select_frames_cap [OF h1 h3] obtain sel where
    sel: "select_frames [0..29] 22 = Inr sel" "int (length sel) = min (int (length [0..29])) 22"
      "22 < int (length [0..29]) \<longrightarrow>
         (\<forall>i. 0 \<le> i \<and> i < 22 \<longrightarrow>
            (\<exists>j. frame_position (int (length [0..29])) 22 i = Inr j \<and> 0 \<le> j
               \<and> j < int (length [0..29]) \<and> sel ! nat i = [0..29] ! nat j))" by blast
  have l: "int (length [0..29]) = 30" by simp
  have big: "22 < int (length [0..29])" by simp
  from sel(3) big have "\<forall>i. 0 \<le> i \<and> i < 22 \<longrightarrow>
            (\<exists>j. frame_position (int (length [0..29])) 22 i = Inr j \<and> 0 \<le> j
               \<and> j < int (length [0..29]) \<and> sel ! nat i = [0..29] ! nat j)" by (rule mp)
  then have "0 \<le> (11::int) \<and> (11::int) < 22 \<longrightarrow>
            (\<exists>j. frame_position (int (length [0..29])) 22 11 = Inr j \<and> 0 \<le> j
               \<and> j < int (length [0..29]) \<and> sel ! nat 11 = [0..29] ! nat j)" by (rule spec)
  then obtain j where j: "frame_position (int (length [0..29])) 22 11 = Inr j"
     "sel ! nat 11 = [0..29] ! nat j" by auto
  from j(1) position_11 have "j = 14" by (simp only: l) simp
  with j(2) have "sel ! 11 = 14" by (simp add: nth_upto)
  with sel(1,2) l show ?thesis by auto
qed

section \<open>Properties of the rearranger\<close>

lemma round_to_double_zero: "round_to_double 0 = Finite 0"
  by (simp add: round_to_double_def)

lemma pow2_tiny: "pow2 (- 1022) \<le> 1 / 2 ^ 40"
proof -
  have "pow2 (- 1022) \<le> pow2 (- 40)" by (rule pow2_mono) simp
  then show ?thesis by (simp add: pow2_def)
qed

lemma pow2_below: "1 / 2 ^ 40 \<le> d \<Longrightarrow> pow2 (- 1022) \<le> d"
  using pow2_tiny by simp

lemma round_le:
  assumes "0 \<le> x" and "x \<le> c" and "x = 0 \<or> d \<le> x" and "pow2 (- 1022) \<le> d" and "c \<le> 2 ^ 102"
  shows "\<exists>v. round_to_double x = Finite v \<and> 0 \<le> v \<and> v \<le> c * (1 + 1 / 2 ^ 53) \<and> (v = 0 \<or> d / 2 \<le> v)"
proof (cases "x = 0")
  case True
  with assms(1,2) have "0 \<le> c * (1 + 1 / 2 ^ 53)" by simp
  with True show ?thesis by (simp add: round_to_double_zero)
next
  case False
  with assms(3) have dx: "d \<le> x" by simp
  with assms(4) have a: "pow2 (- 1022) \<le> x" by simp
  have b: "x < pow2 1023" using assms(2,5) by (intro below_pow2_1023) simp
  from round_to_double_error [OF a b] obtain v where
    v: "round_to_double x = Finite v" "x / 2 < v" "v \<le> x * (1 + 1 / 2 ^ 53)" by blast
  have "x * (1 + 1 / 2 ^ 53) \<le> c * (1 + 1 / 2 ^ 53)"
    using assms(2) by (intro mult_right_mono) simp_all
  with v(3) have "v \<le> c * (1 + 1 / 2 ^ 53)" by simp
  moreover have "0 \<le> v" using v(2) assms(1) by simp
  moreover have "d / 2 \<le> v" using v(2) dx by simp
  ultimately show ?thesis using v(1) by blast
qed

lemma round_100: "round_to_double 100 = Finite 100"
  by (rule round_to_double_eq [where k = 6 and m = "100 * 2 ^ 46"]) (simp_all add: pow2_def)

lemma float_of_int_100: "float_of_int 100 = Inr (Finite 100)"
  by (simp add: float_of_int_def round_100)

lemma float_of_int_le:
  assumes "0 \<le> n" and "n < 2 ^ 50"
  shows "\<exists>v. float_of_int n = Inr (Finite v) \<and> 0 \<le> v \<and> v \<le> of_int n * (1 + 1 / 2 ^ 53)
           \<and> (v = 0 \<or> 1 / 2 \<le> v)"
proof -
  have a: "(0::rat) \<le> of_int n" using assms(1) by simp
  have b: "(of_int n :: rat) = 0 \<or> 1 \<le> (of_int n :: rat)"
  proof (cases "n = 0")
    case False
    with assms(1) have "1 \<le> n" by simp
    then show ?thesis by simp
  qed simp
  have c: "pow2 (- 1022) \<le> 1" using pow2_small by simp
  have d: "(of_int n :: rat) \<le> 2 ^ 102" using of_int_below [OF assms(2)] pow_50_102 by simp
  from round_le [OF a order_refl b c d] show ?thesis
    by (auto simp: float_of_int_def)
qed

lemma percent_fraction:
  assumes "0 \<le> p" and "p \<le> 100"
  shows "\<exists>v. int_truediv p 100 = Inr (Finite v) \<and> 0 \<le> v \<and> v \<le> 1 + 1 / 2 ^ 53
           \<and> (v = 0 \<or> 1 / 200 \<le> v)"
proof -
  define x where "x = (of_int p / of_int 100 :: rat)"
  have a: "0 \<le> x" using assms(1) by (simp add: x_def)
  have b: "x \<le> 1" using assms(2) by (simp add: x_def)
  have c: "x = 0 \<or> 1 / 100 \<le> x"
  proof (cases "p = 0")
    case False
    with assms(1) have "1 \<le> p" by simp
    then have "(1::rat) \<le> of_int p" by simp
    then show ?thesis by (simp add: x_def)
  qed (simp add: x_def)
  have d: "pow2 (- 1022) \<le> 1 / 100" by (rule pow2_below) simp
  have e: "(1::rat) \<le> 2 ^ 102" by simp
  from round_le [OF a b c d e] show ?thesis
    by (auto simp: int_truediv_def x_def)
qed


lemma fmul_le:
  assumes "0 \<le> a" and "a \<le> ca" and "a = 0 \<or> da \<le> a"
    and "0 \<le> b" and "b \<le> cb" and "b = 0 \<or> db \<le> b"
    and "0 < da" and "0 < db" and "1 / 2 ^ 40 \<le> da * db" and "ca * cb \<le> 2 ^ 102"
  shows "\<exists>v. fmul (Finite a) (Finite b) = Finite v \<and> 0 \<le> v \<and> v \<le> ca * cb * (1 + 1 / 2 ^ 53)
           \<and> (v = 0 \<or> da * db / 2 \<le> v)"
proof -
  have x0: "0 \<le> a * b" using assms(1,4) by simp
  have xc: "a * b \<le> ca * cb" using assms(1,2,4,5) by (intro mult_mono) simp_all
  have xd: "a * b = 0 \<or> da * db \<le> a * b"
  proof (cases "a = 0 \<or> b = 0")
    case True
    then show ?thesis by auto
  next
    case False
    with assms(3,6) have "da \<le> a" "db \<le> b" by simp_all
    then have "da * db \<le> a * b" using assms(7,8) by (intro mult_mono) simp_all
    then show ?thesis by simp
  qed
  have d: "pow2 (- 1022) \<le> da * db" using assms(9) by (rule pow2_below)
  from round_le [OF x0 xc xd d assms(10)] show ?thesis by simp
qed

lemma ulp_six: "(1 + 1 / 2 ^ 53) ^ 6 \<le> (1 + 1 / 2 ^ 50 :: rat)"
  by (simp add: power_def)

lemma floor_le_count:
  assumes "(t::rat) \<le> of_int n * (1 + 1 / 2 ^ 53) ^ 6" and "0 \<le> n" and "n < 2 ^ 50"
  shows "\<lfloor>t\<rfloor> \<le> n"
proof -
  have n0: "(0::rat) \<le> of_int n" using assms(2) by simp
  have "of_int n * (1 + 1 / 2 ^ 53) ^ 6 \<le> of_int n * (1 + 1 / 2 ^ 50 :: rat)"
    using ulp_six n0 by (rule mult_left_mono)
  also have "\<dots> = of_int n + of_int n / 2 ^ 50" by (simp only: distrib_left) simp
  finally have "t \<le> of_int n + of_int n / 2 ^ 50" using assms(1) by simp
  moreover have "(of_int n :: rat) / 2 ^ 50 < 1" using of_int_below [OF assms(3)] by simp
  ultimately have "t < of_int n + 1" by linarith
  then have "t < of_int (n + 1)" by simp
  then have "\<lfloor>t\<rfloor> < n + 1" by (simp only: floor_less_iff)
  then show ?thesis by simp
qed

lemma test_count_range:
  assumes "0 \<le> p" and "p \<le> 100" and "n < 2 ^ 50"
  shows "\<exists>tc. test_count p n = Inr tc \<and> 0 \<le> tc \<and> tc \<le> int n"
proof -
  define U where "U = (1 + 1 / 2 ^ 53 :: rat)"
  have U: "1 \<le> U" "U \<le> 2" "0 \<le> U" by (simp_all add: U_def)
  have n50: "int n < 2 ^ 50"
  proof -
    have "int n < int (2 ^ 50)" using assms(3) by (simp only: of_nat_less_iff)
    then show ?thesis by simp
  qed
  from percent_fraction [OF assms(1,2)] obtain f where
    f: "int_truediv p 100 = Inr (Finite f)" "0 \<le> f" "f \<le> U" "f = 0 \<or> 1 / 200 \<le> f"
    unfolding U_def by blast
  from float_of_int_le [of "int n"] n50 obtain g where
    g: "float_of_int (int n) = Inr (Finite g)" "0 \<le> g" "g \<le> of_int (int n) * U" "g = 0 \<or> 1 / 2 \<le> g"
    unfolding U_def by auto
  have nn: "(0::rat) \<le> of_int (int n)" by simp
  have "U * (of_int (int n) * U) \<le> 2 * (2 ^ 50 * 2)"
    using U nn of_int_below [OF n50] by (intro mult_mono) simp_all
  then have big: "U * (of_int (int n) * U) \<le> 2 ^ 102" by simp
  have "\<exists>v. fmul (Finite f) (Finite g) = Finite v \<and> 0 \<le> v \<and> v \<le> U * (of_int (int n) * U) * (1 + 1 / 2 ^ 53)
           \<and> (v = 0 \<or> 1 / 200 * (1 / 2) / 2 \<le> v)"
    by (rule fmul_le [OF f(2,3,4) g(2,3,4) _ _ _ big]) simp_all
  then obtain t where t: "fmul (Finite f) (Finite g) = Finite t" "0 \<le> t"
    "t \<le> U * (of_int (int n) * U) * U" unfolding U_def by blast
  have e: "U * (of_int (int n) * U) * U = of_int (int n) * U ^ 3" by (simp add: numeral_eq_Suc)
  have "of_int (int n) * U ^ 3 \<le> of_int (int n) * U ^ 6"
    using U(1) nn by (intro mult_left_mono power_increasing) simp_all
  moreover have "t \<le> of_int (int n) * U ^ 3" using t(3) unfolding e .
  ultimately have "t \<le> of_int (int n) * U ^ 6" by (rule order_trans [rotated])
  then have "\<lfloor>t\<rfloor> \<le> int n" unfolding U_def using n50 by (intro floor_le_count) simp_all
  moreover have "0 \<le> \<lfloor>t\<rfloor>" using t(2) by simp
  moreover have "test_count p n = Inr \<lfloor>t\<rfloor>"
    using f(1) g(1) t(1,2) by (simp add: test_count_def float_times_int_def bind_err_def)
  ultimately show ?thesis by blast
qed

lemma train_percent_range:
  assumes "0 \<le> s" and "s \<le> 100" and "0 \<le> r" and "r \<le> 100"
  shows "\<exists>tp. train_percent_of s r = Inr (Finite tp) \<and> 0 \<le> tp \<and> tp \<le> 100 * (1 + 1 / 2 ^ 53) ^ 3
           \<and> (tp = 0 \<or> 1 / 800 \<le> tp)"
proof -
  define U where "U = (1 + 1 / 2 ^ 53 :: rat)"
  have U: "1 \<le> U" "U \<le> 2" "0 \<le> U" by (simp_all add: U_def)
  from percent_fraction [OF assms(1,2)] obtain f where
    f: "int_truediv s 100 = Inr (Finite f)" "0 \<le> f" "f \<le> U" "f = 0 \<or> 1 / 200 \<le> f"
    unfolding U_def by blast
  have r50: "r < 2 ^ 50" using assms(4) by simp
  from float_of_int_le [OF assms(3) r50] obtain g where
    g: "float_of_int r = Inr (Finite g)" "0 \<le> g" "g \<le> of_int r * U" "g = 0 \<or> 1 / 2 \<le> g"
    unfolding U_def by auto
  have "(of_int r :: rat) \<le> 100" using assms(4) by simp
  then have "of_int r * U \<le> 100 * U" using U(3) by (rule mult_right_mono)
  with g(3) have g3: "g \<le> 100 * U" by simp
  have "U * (100 * U) \<le> 2 * (100 * 2)" using U by (intro mult_mono) simp_all
  then have big: "U * (100 * U) \<le> 2 ^ 102" by simp
  have "\<exists>v. fmul (Finite f) (Finite g) = Finite v \<and> 0 \<le> v \<and> v \<le> U * (100 * U) * (1 + 1 / 2 ^ 53)
           \<and> (v = 0 \<or> 1 / 200 * (1 / 2) / 2 \<le> v)"
    by (rule fmul_le [OF f(2,3,4) g(2) g3 g(4) _ _ _ big]) simp_all
  then obtain t where t: "fmul (Finite f) (Finite g) = Finite t" "0 \<le> t"
    "t \<le> U * (100 * U) * U" "t = 0 \<or> 1 / 800 \<le> t" unfolding U_def by auto
  have e: "U * (100 * U) * U = 100 * U ^ 3" by (simp add: numeral_eq_Suc)
  have "t \<le> 100 * U ^ 3" using t(3) unfolding e .
  moreover have "train_percent_of s r = Inr (Finite t)"
    using f(1) g(1) t(1) by (simp add: train_percent_of_def float_times_int_def bind_err_def)
  ultimately show ?thesis using t(2,4) unfolding U_def by blast
qed

lemma train_count_range:
  assumes "0 \<le> tp" and "tp \<le> 100 * (1 + 1 / 2 ^ 53) ^ 3" and "tp = 0 \<or> 1 / 800 \<le> tp"
    and "n < 2 ^ 50"
  shows "\<exists>trc. train_count (Finite tp) n = Inr trc \<and> 0 \<le> trc \<and> trc \<le> int n"
proof -
  define U where "U = (1 + 1 / 2 ^ 53 :: rat)"
  have U: "1 \<le> U" "U \<le> 2" "0 \<le> U" by (simp_all add: U_def)
  have n50: "int n < 2 ^ 50"
  proof -
    have "int n < int (2 ^ 50)" using assms(4) by (simp only: of_nat_less_iff)
    then show ?thesis by simp
  qed
  have x0: "0 \<le> tp / 100" using assms(1) by simp
  have xc: "tp / 100 \<le> U ^ 3" using assms(2) by (simp add: U_def)
  have xd: "tp / 100 = 0 \<or> 1 / 80000 \<le> tp / 100" using assms(3) by auto
  have d: "pow2 (- 1022) \<le> 1 / 80000" by (rule pow2_below) simp
  have "U ^ 3 \<le> 2 ^ 3" using U by (intro power_mono) simp_all
  then have c: "U ^ 3 \<le> 2 ^ 102" by simp
  from round_le [OF x0 xc xd d c] obtain h where
    h: "round_to_double (tp / 100) = Finite h" "0 \<le> h" "h \<le> U ^ 3 * U" "h = 0 \<or> 1 / 160000 \<le> h"
    unfolding U_def by auto
  have fd: "float_div_int (Finite tp) 100 = Inr (Finite h)"
    using h(1) by (simp add: float_div_int_def float_of_int_100 bind_err_def)
  from float_of_int_le [of "int n"] n50 obtain g where
    g: "float_of_int (int n) = Inr (Finite g)" "0 \<le> g" "g \<le> of_int (int n) * U" "g = 0 \<or> 1 / 2 \<le> g"
    unfolding U_def by auto
  have nn: "(0::rat) \<le> of_int (int n)" by simp
  have A: "U ^ 3 * U \<le> 2 ^ 3 * 2" using U by (intro mult_mono power_mono) simp_all
  have B: "of_int (int n) * U \<le> 2 ^ 50 * 2"
    using U nn of_int_below [OF n50] by (intro mult_mono) simp_all
  have C: "(0::rat) \<le> 2 ^ 3 * 2" by simp
  have D: "0 \<le> of_int (int n) * U" using U(3) nn by (rule mult_nonneg_nonneg [rotated])
  have "U ^ 3 * U * (of_int (int n) * U) \<le> 2 ^ 3 * 2 * (2 ^ 50 * 2)"
    by (rule mult_mono [OF A B C D])
  then have big: "U ^ 3 * U * (of_int (int n) * U) \<le> 2 ^ 102" by simp
  have "\<exists>v. fmul (Finite h) (Finite g) = Finite v \<and> 0 \<le> v
           \<and> v \<le> U ^ 3 * U * (of_int (int n) * U) * (1 + 1 / 2 ^ 53)
           \<and> (v = 0 \<or> 1 / 160000 * (1 / 2) / 2 \<le> v)"
    by (rule fmul_le [OF h(2,3,4) g(2,3,4) _ _ _ big]) simp_all
  then obtain t where t: "fmul (Finite h) (Finite g) = Finite t" "0 \<le> t"
    "t \<le> U ^ 3 * U * (of_int (int n) * U) * U" unfolding U_def by blast
  have e: "U ^ 3 * U * (of_int (int n) * U) * U = of_int (int n) * U ^ 6"
    by (simp add: numeral_eq_Suc)
  have "t \<le> of_int (int n) * U ^ 6" using t(3) unfolding e .
  then have "\<lfloor>t\<rfloor> \<le> int n" unfolding U_def using n50 by (intro floor_le_count) simp_all
  moreover have "0 \<le> \<lfloor>t\<rfloor>" using t(2) by simp
  moreover have "train_count (Finite tp) n = Inr \<lfloor>t\<rfloor>"
    using fd g(1) t(1,2) by (simp add: train_count_def float_times_int_def bind_err_def)
  ultimately show ?thesis by blast
qed

lemma py_slice_take: "0 \<le> k \<Longrightarrow> py_slice xs None (Some k) = take (nat k) xs"
  by (simp add: py_slice_def slice_bound_def Let_def min_def)

lemma py_slice_drop: "0 \<le> k \<Longrightarrow> py_slice xs (Some k) None = drop (nat k) xs"
  by (simp add: py_slice_def slice_bound_def Let_def min_def)

lemma distinct_list_images:
  assumes "\<forall>s fs. images s = Some fs \<longrightarrow> distinct fs"
  shows "distinct (list_images images s)"
proof (cases "images s")
  case None
  then show ?thesis by (simp add: list_images_def)
next
  case (Some fs)
  with assms have "distinct fs" by blast
  then have "distinct (map (Pair s) (filter (\<lambda>f. endswith f ''.jpg'' \<or> endswith f ''.png'') fs))"
    by (simp add: distinct_map inj_on_def)
  with Some show ?thesis by (simp add: list_images_def)
qed

lemma fst_list_images: "x \<in> set (list_images images s) \<Longrightarrow> fst x = s"
  by (auto simp: list_images_def split: option.splits)

lemma distinct_collected_images:
  assumes "\<forall>s fs. images s = Some fs \<longrightarrow> distinct fs"
  shows "distinct (collected_images images)"
proof -
  have d: "distinct (list_images images s)" for s using assms by (rule distinct_list_images)
  have f: "fst x = s" if "x \<in> set (list_images images s)" for x s
    using that by (rule fst_list_images)
  show ?thesis
    unfolding collected_images_def by (auto simp: d dest!: f)
qed

lemma rearrange_plan:
  assumes path: "dataset_path \<noteq> []"
    and entry: "py_int (int_strip test_percent_entry) = Some p" and p: "0 \<le> p" "p \<le> 100"
    and scale: "0 \<le> split_scale" "split_scale \<le> 100"
    and size: "length (shuffle (collected_images images)) < 2 ^ 50"
  shows "\<exists>tc tp trc.
           test_count p (length (shuffle (collected_images images))) = Inr tc
         \<and> 0 \<le> tc \<and> tc \<le> int (length (shuffle (collected_images images)))
         \<and> train_percent_of split_scale (100 - p) = Inr tp
         \<and> train_count tp (length (shuffle (collected_images images)) - nat tc) = Inr trc
         \<and> 0 \<le> trc \<and> trc \<le> int (length (shuffle (collected_images images))) - tc
         \<and> rearrange_dataset dataset_path test_percent_entry split_scale images shuffle
             = Inr (ShowInfo ''Dataset rearranged!'',
                    Some \<lparr>test_images = take (nat tc) (shuffle (collected_images images)),
                          train_images = take (nat trc) (drop (nat tc) (shuffle (collected_images images))),
                          valid_images = drop (nat trc) (drop (nat tc) (shuffle (collected_images images)))\<rparr>)"
proof -
  define xs where "xs = shuffle (collected_images images)"
  from test_count_range [OF p size] obtain tc where
    tc: "test_count p (length xs) = Inr tc" "0 \<le> tc" "tc \<le> int (length xs)"
    unfolding xs_def by blast
  have r: "0 \<le> 100 - p" "100 - p \<le> 100" using p by simp_all
  from train_percent_range [OF scale r] obtain tp where
    tp: "train_percent_of split_scale (100 - p) = Inr (Finite tp)" "0 \<le> tp"
      "tp \<le> 100 * (1 + 1 / 2 ^ 53) ^ 3" "tp = 0 \<or> 1 / 800 \<le> tp" by blast
  have "length xs - nat tc < 2 ^ 50" using size unfolding xs_def by simp
  from train_count_range [OF tp(2,3,4) this] obtain trc where
    trc: "train_count (Finite tp) (length xs - nat tc) = Inr trc" "0 \<le> trc"
      "trc \<le> int (length xs - nat tc)" by blast
  have trc': "trc \<le> int (length xs) - tc" using trc(3) tc(2,3) by simp
  have "rearrange_dataset dataset_path test_percent_entry split_scale images shuffle
             = Inr (ShowInfo ''Dataset rearranged!'',
                    Some \<lparr>test_images = take (nat tc) xs,
                          train_images = take (nat trc) (drop (nat tc) xs),
                          valid_images = drop (nat trc) (drop (nat tc) xs)\<rparr>)"
    using path entry p tp(1) tc(1,2) trc(1,2)
    by (simp add: rearrange_dataset_def Let_def bind_err_def xs_def [symmetric]
        py_slice_take py_slice_drop)
  with tc tp(1) trc(1,2) trc' show ?thesis unfolding xs_def by blast
qed

text \<open>
  C5 (as amended).  For a valid test percentage and fewer than \<open>2 ^ 50\<close> images, whatever
  the shuffle, the run succeeds; the test set receives \<open>int(p_test / 100 * N)\<close> images and
  the train set \<open>int(p_train / 100 * (N - |test|))\<close> of the remaining ones, both as
  double-precision arithmetic evaluates them, the val set all the rest, and the three
  sets are pairwise disjoint with union all \<open>N\<close> collected images.
\<close>

theorem rearrange_split_sizes:
  assumes "dataset_path \<noteq> []"
    and "py_int (int_strip test_percent_entry) = Some p" and "0 \<le> p" and "p \<le> 100"
    and "0 \<le> split_scale" and "split_scale \<le> 100"
    and "\<forall>s fs. images s = Some fs \<longrightarrow> distinct fs"
    and "mset (shuffle (collected_images images)) = mset (collected_images images)"
    and "length (collected_images images) < 2 ^ 50"
  shows "\<exists>tc tp trc pl.
           test_count p (length (collected_images images)) = Inr tc
         \<and> train_percent_of split_scale (100 - p) = Inr tp
         \<and> train_count tp (length (collected_images images) - nat tc) = Inr trc
         \<and> rearrange_dataset dataset_path test_percent_entry split_scale images shuffle
             = Inr (ShowInfo ''Dataset rearranged!'', Some pl)
         \<and> 0 \<le> tc \<and> 0 \<le> trc
         \<and> plan_sizes pl = (nat tc, nat trc, length (collected_images images) - nat tc - nat trc)
         \<and> set (test_images pl) \<inter> set (train_images pl) = {}
         \<and> set (test_images pl) \<inter> set (valid_images pl) = {}
         \<and> set (train_images pl) \<inter> set (valid_images pl) = {}
         \<and> set (test_images pl) \<union> set (train_images pl) \<union> set (valid_images pl)
             = set (collected_images images)"
proof -
  define xs where "xs = shuffle (collected_images images)"
  have len: "length xs = length (collected_images images)"
    unfolding xs_def using assms(8) by (rule mset_eq_length)
  have set: "set xs = set (collected_images images)"
    unfolding xs_def using assms(8) by (rule mset_eq_setD)
  have "distinct (collected_images images)" using assms(7) by (rule distinct_collected_images)
  then have dis: "distinct xs" unfolding xs_def using assms(8) by (metis distinct_count_atmost_1 set_mset_mset mset_eq_setD)
  have size: "length (shuffle (collected_images images)) < 2 ^ 50"
    using assms(9) len by (simp add: xs_def)
  from rearrange_plan [where shuffle = shuffle and images = images, OF assms(1-6) size]
  obtain tc tp trc where
    r: "test_count p (length xs) = Inr tc" "0 \<le> tc" "tc \<le> int (length xs)"
       "train_percent_of split_scale (100 - p) = Inr tp"
       "train_count tp (length xs - nat tc) = Inr trc" "0 \<le> trc" "trc \<le> int (length xs) - tc"
       "rearrange_dataset dataset_path test_percent_entry split_scale images shuffle
             = Inr (ShowInfo ''Dataset rearranged!'',
                    Some \<lparr>test_images = take (nat tc) xs,
                          train_images = take (nat trc) (drop (nat tc) xs),
                          valid_images = drop (nat trc) (drop (nat tc) xs)\<rparr>)"
    unfolding xs_def by blast
  define pl where "pl = \<lparr>test_images = take (nat tc) xs,
                          train_images = take (nat trc) (drop (nat tc) xs),
                          valid_images = drop (nat trc) (drop (nat tc) xs)\<rparr>"
  have n1: "nat tc \<le> length xs" using r(2,3) by simp
  have n2: "nat trc \<le> length xs - nat tc" using r(2,3,6,7) by simp
  have sizes: "plan_sizes pl = (nat tc, nat trc, length xs - nat tc - nat trc)"
    using n1 n2 by (simp add: plan_sizes_def pl_def add.commute)
  define A where "A = take (nat tc) xs"
  define B where "B = take (nat trc) (drop (nat tc) xs)"
  define C where "C = drop (nat trc) (drop (nat tc) xs)"
  have app: "A @ B @ C = xs" by (simp add: A_def B_def C_def del: drop_drop)
  have pl: "test_images pl = A" "train_images pl = B" "valid_images pl = C"
    by (simp_all add: pl_def A_def B_def C_def)
  have "distinct (A @ B @ C)" using dis by (simp only: app)
  then have disj: "set (test_images pl) \<inter> set (train_images pl) = {}"
    "set (test_images pl) \<inter> set (valid_images pl) = {}"
    "set (train_images pl) \<inter> set (valid_images pl) = {}"
    unfolding pl by auto
  have "set A \<union> set B \<union> set C = set (A @ B @ C)" by auto
  then have un: "set (test_images pl) \<union> set (train_images pl) \<union> set (valid_images pl)
          = set (collected_images images)" unfolding pl by (simp only: app set)
  show ?thesis
    using r(1,4,5,8) r(2,6) sizes disj un unfolding pl_def [symmetric] len by blast
qed

lemma py_str_inj:
  assumes "py_str a = py_str b"
  shows "a = b"
proof -
  have "Some a = py_int (py_str a)" by (simp only: py_int_py_str)
  also have "\<dots> = py_int (py_str b)" by (simp only: assms)
  also have "\<dots> = Some b" by (simp only: py_int_py_str)
  finally show ?thesis by simp
qed

lemma endswith_append: "endswith (s @ suf) suf"
  by (simp add: endswith_def)

lemma collected_example_images:
  "collected_images (example_images n) = map (Pair Train) (numbered_images n)"
proof -
  have "filter (\<lambda>f. endswith f ''.jpg'' \<or> endswith f ''.png'') (numbered_images n) = numbered_images n"
    unfolding numbered_images_def by (rule filter_True) (auto simp: endswith_append)
  then show ?thesis
    by (simp add: collected_images_def list_images_def example_images_def)
qed

lemma length_collected_example: "length (collected_images (example_images n)) = n"
  by (simp add: collected_example_images numbered_images_def)

lemma distinct_numbered_images: "distinct (numbered_images n)"
  unfolding numbered_images_def by (auto simp: distinct_map inj_on_def dest: py_str_inj)

lemma example_images_distinct: "\<forall>s fs. example_images n s = Some fs \<longrightarrow> distinct fs"
  by (auto simp: example_images_def distinct_numbered_images)

lemma test_count_58_50: "test_count 58 50 = Inr 28"
proof -
  have q: "round_to_double (29 / 50) = Finite (5224175567749775 / 9007199254740992)"
    by (rule round_to_double_eq [where k = "- 1" and m = 5224175567749775]) (simp_all add: pow2_def)
  have e: "round_to_double 50 = Finite 50"
    by (rule round_to_double_eq [where k = 5 and m = "50 * 2 ^ 47"]) (simp_all add: pow2_def)
  have p: "round_to_double (130604389193744375 / 4503599627370496)
             = Finite (8162774324609023 / 281474976710656)"
    by (rule round_to_double_eq [where k = 4 and m = 8162774324609023]) (simp_all add: pow2_def)
  have a: "int_truediv 58 100 = Inr (Finite (5224175567749775 / 9007199254740992))"
    by (simp add: int_truediv_def q)
  have b: "float_of_int (int 50) = Inr (Finite 50)" by (simp add: float_of_int_def e)
  have c: "fmul (Finite (5224175567749775 / 9007199254740992)) (Finite 50)
             = Finite (8162774324609023 / 281474976710656)" by (simp add: p)
  have "\<lfloor>8162774324609023 / 281474976710656 :: rat\<rfloor> = 28" by (rule floor_unique) simp_all
  then have d: "int_of_float (Finite (8162774324609023 / 281474976710656)) = Inr 28" by simp
  show ?thesis
    by (simp only: test_count_def float_times_int_def a b c d bind_err_def sum.case)
qed

lemma entry_58: "py_int (int_strip ''58'') = Some 58"
  by code_simp

lemma example_run_58:
  "\<exists>trc. rearrange_dataset ''dataset'' ''58'' 70 (example_images 50) id
     = Inr (ShowInfo ''Dataset rearranged!'',
            Some \<lparr>test_images = take 28 (collected_images (example_images 50)),
                  train_images = take (nat trc) (drop 28 (collected_images (example_images 50))),
                  valid_images = drop (nat trc) (drop 28 (collected_images (example_images 50)))\<rparr>)"
proof -
  have h1: "''dataset'' \<noteq> []" by simp
  have h3: "(0::int) \<le> 58" "(58::int) \<le> 100" "(0::int) \<le> 70" "(70::int) \<le> 100" by simp_all
  have h4: "length (id (collected_images (example_images 50))) < 2 ^ 50"
    by (simp add: length_collected_example)
  from rearrange_plan [where shuffle = id and images = "example_images 50", OF h1 entry_58 h3 h4]
  obtain tc tp trc where
    r: "test_count 58 (length (id (collected_images (example_images 50)))) = Inr tc"
       "rearrange_dataset ''dataset'' ''58'' 70 (example_images 50) id
          = Inr (ShowInfo ''Dataset rearranged!'',
              Some \<lparr>test_images = take (nat tc) (id (collected_images (example_images 50))),
                    train_images = take (nat trc) (drop (nat tc) (id (collected_images (example_images 50)))),
                    valid_images = drop (nat trc) (drop (nat tc) (id (collected_images (example_images 50))))\<rparr>)"
    by blast
  from r(1) have "tc = 28" by (simp add: length_collected_example test_count_58_50)
  with r(2) show ?thesis by (auto simp del: drop_drop)
qed

text \<open>
  C5 (as stated) fails: with a test percentage of 58 and 50 images the test set
  receives 28 images, not \<open>\<lfloor>58 / 100 * 50\<rfloor> = 29\<close>.
\<close>

theorem rearrange_test_size_not_floor:
  "map_sum id (map_prod id (map_option (length \<circ> test_images)))
     (rearrange_dataset ''dataset'' ''58'' 70 (example_images 50) id)
     = Inr (ShowInfo ''Dataset rearranged!'', Some 28)
   \<and> \<lfloor>58 / 100 * 50 :: rat\<rfloor> = 29"
proof -
  from example_run_58 obtain trc where
    "rearrange_dataset ''dataset'' ''58'' 70 (example_images 50) id
     = Inr (ShowInfo ''Dataset rearranged!'',
            Some \<lparr>test_images = take 28 (collected_images (example_images 50)),
                  train_images = take (nat trc) (drop 28 (collected_images (example_images 50))),
                  valid_images = drop (nat trc) (drop 28 (collected_images (example_images 50)))\<rparr>)"
    by blast
  then have "map_sum id (map_prod id (map_option (length \<circ> test_images)))
     (rearrange_dataset ''dataset'' ''58'' 70 (example_images 50) id)
     = Inr (ShowInfo ''Dataset rearranged!'', Some 28)"
    by (simp add: length_collected_example)
  moreover have "\<lfloor>58 / 100 * 50 :: rat\<rfloor> = 29" by simp
  ultimately show ?thesis by blast
qed

theorem rearrange_split_sizes_witness:
  "\<exists>trc pl. rearrange_dataset ''dataset'' ''58'' 70 (example_images 50) id
               = Inr (ShowInfo ''Dataset rearranged!'', Some pl)
           \<and> 0 \<le> trc \<and> plan_sizes pl = (28, nat trc, 50 - 28 - nat trc)
           \<and> set (test_images pl) \<inter> set (train_images pl) = {}
           \<and> set (test_images pl) \<union> set (train_images pl) \<union> set (valid_images pl)
               = set (collected_images (example_images 50))"
proof -
  have h1: "''dataset'' \<noteq> []" by simp
  have h3: "(0::int) \<le> 58" "(58::int) \<le> 100" "(0::int) \<le> 70" "(70::int) \<le> 100" by simp_all
  have h4: "mset (id (collected_images (example_images 50))) = mset (collected_images (example_images 50))"
    by simp
  have h5: "length (collected_images (example_images 50)) < 2 ^ 50"
    by (simp add: length_collected_example)
  from rearrange_split_sizes [where shuffle = id and images = "example_images 50",
      OF h1 entry_58 h3 example_images_distinct h4 h5]
  obtain tc tp trc pl where
    r: "test_count 58 (length (collected_images (example_images 50))) = Inr tc"
       "rearrange_dataset ''dataset'' ''58'' 70 (example_images 50) id
             = Inr (ShowInfo ''Dataset rearranged!'', Some pl)"
       "0 \<le> trc"
       "plan_sizes pl = (nat tc, nat trc, length (collected_images (example_images 50)) - nat tc - nat trc)"
       "set (test_images pl) \<inter> set (train_images pl) = {}"
       "set (test_images pl) \<union> set (train_images pl) \<union> set (valid_images pl)
             = set (collected_images (example_images 50))"
    by blast
  from r(1) have "tc = 28" by (simp add: length_collected_example test_count_58_50)
  with r show ?thesis by (auto simp: length_collected_example)
qed

section \<open>Properties of the folder splitter\<close>







lemma rd_half: "round_to_double (1 / 2) = Finite (1 / 2)"
  by (rule round_to_double_eq [where k = "- 1" and m = 4503599627370496]) (simp_all add: pow2_def)

lemma rd_neg_half: "round_to_double (- (1 / 2)) = Finite (- (1 / 2))"
  by (rule round_to_double_eq [where k = "- 1" and m = 4503599627370496]) (simp_all add: pow2_def)


lemma rd_2: "round_to_double (2) = Finite (2)"
  by (rule round_to_double_eq [where k = 1 and m = 4503599627370496]) (simp_all add: pow2_def)

lemma rd_neg_1: "round_to_double (- 1) = Finite (- 1)"
  by (rule round_to_double_eq [where k = 0 and m = 4503599627370496]) (simp_all add: pow2_def)










lemma rd_57_100: "round_to_double (57 / 100) = Finite (5134103575202365 / 9007199254740992)"
  by (rule round_to_double_eq [where k = "- 1" and m = 5134103575202365]) (simp_all add: pow2_def)

lemma rd_prod_57: "round_to_double (128352589380059125 / 2251799813685248) = Finite (8022036836253695 / 140737488355328)"
  by (rule round_to_double_eq [where k = 5 and m = 8022036836253695]) (simp_all add: pow2_def)

lemma rd_10: "round_to_double (10) = Finite (10)"
  by (rule round_to_double_eq [where k = 3 and m = 5629499534213120]) (simp_all add: pow2_def)

lemma rd_prod_80: "round_to_double (18014398509481985 / 2251799813685248) = Finite (8)"
  by (rule round_to_double_eq [where k = 3 and m = 4503599627370496]) (simp_all add: pow2_def)

lemma rd_prod_10: "round_to_double (18014398509481985 / 18014398509481984) = Finite (1)"
  by (rule round_to_double_eq [where k = 0 and m = 4503599627370496]) (simp_all add: pow2_def)















end
